theory Spec2Isabelle
  imports Main "HOL-Library.Sublist"
begin

section \<open>JavaScript string and number primitives used by the sources\<close>

text \<open>
  Positions (minterm indices) are the non-negative integers of the sources' \<open>number\<close>
  type and are modelled as \<open>nat\<close>. Strings are character lists. A \<open>number\<close> that may be
  \<open>NaN\<close> (the result of \<open>parseInt\<close>) is an \<open>int option\<close>, with \<open>None\<close> for \<open>NaN\<close>.
\<close>

definition binDigit :: "nat \<Rightarrow> char" where
  "binDigit d = (if d = 0 then CHR ''0'' else CHR ''1'')"

text \<open>\<open>n.toString(2)\<close> for a non-negative integer: no leading zeros, \<open>"0"\<close> for zero.\<close>

fun toString2 :: "nat \<Rightarrow> string" where
  "toString2 n = (if n < 2 then [binDigit n] else toString2 (n div 2) @ [binDigit (n mod 2)])"

declare toString2.simps [simp del]

text \<open>\<open>s.padStart(n, "0")\<close>: pads on the left up to length \<open>n\<close>, never truncates.\<close>

definition padStart :: "nat \<Rightarrow> char \<Rightarrow> string \<Rightarrow> string" where
  "padStart n c s = replicate (n - length s) c @ s"

text \<open>\<open>s[i]\<close> read as a string: the one-character string at index \<open>i\<close>. Every such read in
  the modelled sources is on a string padded to at least the indexed length.\<close>

definition charAt :: "string \<Rightarrow> nat \<Rightarrow> string" where
  "charAt s i = take 1 (drop i s)"

text \<open>\<open>s.slice(a, b)\<close> and \<open>s.slice(a)\<close> for non-negative indices.\<close>

definition slice :: "string \<Rightarrow> nat \<Rightarrow> nat \<Rightarrow> string" where
  "slice s a b = take (b - a) (drop a s)"

definition sliceFrom :: "string \<Rightarrow> nat \<Rightarrow> string" where
  "sliceFrom s a = drop a s"

text \<open>The white space that \<open>parseInt\<close> skips, among the 8-bit characters of a HOL string:
  space, tab, line feed, vertical tab, form feed, carriage return and the no-break space
  \<open>U+00A0\<close>.\<close>

definition isWhite :: "char \<Rightarrow> bool" where
  "isWhite c = (c \<in> set [CHR '' '', CHR 0x09, CHR 0x0A, CHR 0x0B, CHR 0x0C, CHR 0x0D, CHR 0xA0])"

definition isDigitR :: "nat \<Rightarrow> char \<Rightarrow> bool" where
  "isDigitR r c = (48 \<le> (of_char c :: nat) \<and> (of_char c :: nat) < 48 + r)"

definition digitVal :: "char \<Rightarrow> nat" where
  "digitVal c = (of_char c :: nat) - 48"

definition digitsVal :: "nat \<Rightarrow> string \<Rightarrow> nat" where
  "digitsVal r ds = foldl (\<lambda>a c. a * r + digitVal c) 0 ds"

text \<open>
  \<open>parseInt(s, r)\<close> for a radix \<open>2 \<le> r \<le> 10\<close>: leading white space is skipped, one sign is
  accepted, the longest prefix of radix-\<open>r\<close> digits is read, and the result is \<open>NaN\<close> when
  that prefix is empty. The result is the exact integer value of the digits, which is the
  \<open>number\<close> of the sources for values below \<open>2 ^ 53\<close>.
\<close>

definition parseInt :: "string \<Rightarrow> nat \<Rightarrow> int option" where
  "parseInt s r =
     (let s1 = dropWhile isWhite s;
          neg = (take 1 s1 = ''-'');
          s2 = (if take 1 s1 = ''-'' \<or> take 1 s1 = ''+'' then drop 1 s1 else s1);
          ds = takeWhile (isDigitR r) s2
      in if ds = [] then None
         else Some ((if neg then - 1 else 1) * int (digitsVal r ds)))"

section \<open>Grid coordinates (kmap-utils)\<close>

text \<open>An optional trailing argument of a call: left out, passed as \<open>undefined\<close>, or passed
  with a value.\<close>

datatype 'a jsarg = NotPassed | PassedUndefined | Passed 'a

text \<open>\<open>getMintermIndex(rowGray, colGray, mapIndex = 0)\<close>: the map bit is prefixed when a
  third argument was passed (\<open>arguments.length > 2\<close>). The default value \<open>0\<close> replaces an
  argument that is \<open>undefined\<close>, so the test \<open>mapIndex !== undefined\<close> holds then and the
  prefix is \<open>"0"\<close>.\<close>

definition getMintermIndex :: "string \<Rightarrow> string \<Rightarrow> int option jsarg \<Rightarrow> int option" where
  "getMintermIndex rowGray colGray mapIndex =
     parseInt ((case mapIndex of
                  NotPassed \<Rightarrow> []
                | PassedUndefined \<Rightarrow> ''0''
                | Passed v \<Rightarrow> (if v = Some 1 then ''1'' else ''0'')) @ rowGray @ colGray) 2"

record coords =
  rowBin :: string
  colBin :: string
  map_sel :: "int option"

definition getCoordinates :: "nat \<Rightarrow> nat \<Rightarrow> coords" where
  "getCoordinates minterm vars =
     (let bin = padStart vars (CHR ''0'') (toString2 minterm) in
      if vars = 2 then \<lparr>rowBin = charAt bin 0, colBin = charAt bin 1, map_sel = Some 0\<rparr>
      else if vars = 3 then \<lparr>rowBin = charAt bin 0, colBin = sliceFrom bin 1, map_sel = Some 0\<rparr>
      else if vars = 4 then \<lparr>rowBin = slice bin 0 2, colBin = sliceFrom bin 2, map_sel = Some 0\<rparr>
      else if vars = 5 then
        \<lparr>rowBin = slice bin 1 3, colBin = sliceFrom bin 3, map_sel = parseInt (charAt bin 0) 10\<rparr>
      else \<lparr>rowBin = ''0'', colBin = ''0'', map_sel = Some 0\<rparr>)"

text \<open>\<open>generateGrayCodes(n)\<close>: the reflected binary code on \<open>n\<close> bits.\<close>

fun generateGrayCodes :: "nat \<Rightarrow> string list" where
  "generateGrayCodes 0 = ['''']"
| "generateGrayCodes (Suc 0) = [''0'', ''1'']"
| "generateGrayCodes (Suc (Suc n)) =
     (let prev = generateGrayCodes (Suc n) in
      map (\<lambda>p. ''0'' @ p) prev @ map (\<lambda>p. ''1'' @ p) (rev prev))"

text \<open>\<open>getGridDimensions(vars)\<close>, as the pair \<open>(rowBits, colBits)\<close>.\<close>

definition getGridDimensions :: "nat \<Rightarrow> nat \<times> nat" where
  "getGridDimensions vars =
     (if vars = 2 then (1, 1)
      else if vars = 3 then (1, 2)
      else if vars = 4 then (2, 2)
      else if vars = 5 then (2, 2)
      else (2, 2))"

section \<open>The Quine-McCluskey solver (solver)\<close>

subsection \<open>Data\<close>

text \<open>
  The interface \<open>Implicant\<close> of the source: a cube string over \<open>0\<close>, \<open>1\<close>, \<open>-\<close>, the
  positions it covers, and the mutable flag \<open>isPrime\<close>. (The field \<open>term\<close> of the source is
  named \<open>term_str\<close> here.)
\<close>

record Implicant =
  term_str :: string
  minterms :: "nat list"
  isPrime :: bool

record SolverResult =
  expression :: string
  essentials :: "nat list list"

text \<open>The object returned by \<open>runQM\<close>: \<open>{ expression, groups, terms }\<close>.\<close>

record QMResult =
  qm_expression :: string
  qm_groups :: "nat list list"
  qm_terms :: "string list"

text \<open>The one exception the solver can raise: a property read on \<open>undefined\<close>.\<close>

datatype error = TypeError

type_synonym groups = "Implicant list list"

subsection \<open>Small helpers\<close>

text \<open>\<open>s[i]\<close> as a character: \<open>undefined\<close> (here \<open>None\<close>) out of range.\<close>

definition strAt :: "string \<Rightarrow> nat \<Rightarrow> char option" where
  "strAt s i = (if i < length s then Some (s ! i) else None)"

text \<open>\<open>vars[i]\<close> of a string array: \<open>undefined\<close> (here \<open>None\<close>) out of range.\<close>

definition varAt :: "string list \<Rightarrow> nat \<Rightarrow> string option" where
  "varAt vars i = (if i < length vars then Some (vars ! i) else None)"

text \<open>String concatenation renders \<open>undefined\<close> as the text \<open>undefined\<close>;
  \<open>Array.prototype.join\<close> renders it as the empty string.\<close>

definition concatStr :: "string option \<Rightarrow> string" where
  "concatStr v = (case v of None \<Rightarrow> ''undefined'' | Some s \<Rightarrow> s)"

fun join :: "string \<Rightarrow> string list \<Rightarrow> string" where
  "join sep [] = []"
| "join sep [x] = x"
| "join sep (x # y # ys) = x @ sep @ join sep (y # ys)"

definition joinOpt :: "string \<Rightarrow> string option list \<Rightarrow> string" where
  "joinOpt sep xs = join sep (map (\<lambda>v. case v of None \<Rightarrow> [] | Some s \<Rightarrow> s) xs)"

definition digitChar :: "nat \<Rightarrow> char" where
  "digitChar d = char_of (48 + d)"

text \<open>The decimal text of a non-negative integer, as a template literal prints it.\<close>

fun natToString :: "nat \<Rightarrow> string" where
  "natToString n = (if n < 10 then [digitChar n] else natToString (n div 10) @ [digitChar (n mod 10)])"

declare natToString.simps [simp del]

text \<open>\<open>Array.from({ length: variables }, (_, i) => `x_${i}`)\<close>.\<close>

definition varNames :: "nat \<Rightarrow> string list" where
  "varNames variables = map (\<lambda>i. ''x_'' @ natToString i) [0..<variables]"

text \<open>A JavaScript \<open>Set\<close> filled by \<open>add\<close>, as the list of its elements in insertion order.\<close>

fun setAddAll :: "'a list \<Rightarrow> 'a list \<Rightarrow> 'a list" where
  "setAddAll acc [] = acc"
| "setAddAll acc (x # xs) = setAddAll (if x \<in> set acc then acc else acc @ [x]) xs"

subsection \<open>\<open>diffIndex\<close>\<close>

text \<open>The index of the single position where two strings differ; \<open>-1\<close> when they differ
  nowhere or in more than one position of the first string.\<close>

function diffIndexFrom :: "string \<Rightarrow> string \<Rightarrow> nat \<Rightarrow> int \<Rightarrow> int" where
  "diffIndexFrom t1 t2 i diff =
     (if i < length t1 then
        (if strAt t1 i \<noteq> strAt t2 i then
           (if diff \<noteq> - 1 then - 1 else diffIndexFrom t1 t2 (i + 1) (int i))
         else diffIndexFrom t1 t2 (i + 1) diff)
      else diff)"
  by pat_completeness auto
termination
  by (relation "measure (\<lambda>(t1, t2, i, diff). length t1 - i)") auto

declare diffIndexFrom.simps [simp del]

definition diffIndex :: "string \<Rightarrow> string \<Rightarrow> int" where
  "diffIndex t1 t2 = diffIndexFrom t1 t2 0 (- 1)"

subsection \<open>\<open>formatTerm\<close> and \<open>formatPosFromTerms\<close>\<close>

text \<open>The loop of \<open>formatTerm\<close> over the string indices, on the state \<open>(res, isAllDashes)\<close>.\<close>

function formatTermLoop :: "string \<Rightarrow> string list \<Rightarrow> nat \<Rightarrow> string \<times> bool \<Rightarrow> string \<times> bool" where
  "formatTermLoop t vars i (res, isAllDashes) =
     (if i < length t then
        (if t ! i \<noteq> CHR ''-'' then
           formatTermLoop t vars (i + 1)
             (res @ concatStr (varAt vars i) @ (if t ! i = CHR ''0'' then [CHR 0x27] else []), False)
         else formatTermLoop t vars (i + 1) (res, isAllDashes))
      else (res, isAllDashes))"
  by pat_completeness auto
termination
  by (relation "measure (\<lambda>(t, vars, i, st). length t - i)") auto

declare formatTermLoop.simps [simp del]

definition formatTerm :: "string \<Rightarrow> string list \<Rightarrow> string" where
  "formatTerm t vars =
     (case formatTermLoop t vars 0 ([], True) of
        (res, isAllDashes) \<Rightarrow> if isAllDashes then ''1'' else res)"

text \<open>The literal list of one POS factor: the loop of the \<open>terms.map\<close> callback.\<close>

function posLitsLoop :: "string \<Rightarrow> string list \<Rightarrow> nat \<Rightarrow> string option list \<Rightarrow> string option list" where
  "posLitsLoop t vars i lits =
     (if i < length t then
        (if t ! i = CHR ''-'' then posLitsLoop t vars (i + 1) lits
         else if t ! i = CHR ''0'' then posLitsLoop t vars (i + 1) (lits @ [varAt vars i])
         else if t ! i = CHR ''1'' then
           posLitsLoop t vars (i + 1) (lits @ [Some (concatStr (varAt vars i) @ [CHR 0x27])])
         else posLitsLoop t vars (i + 1) lits)
      else lits)"
  by pat_completeness auto
termination
  by (relation "measure (\<lambda>(t, vars, i, lits). length t - i)") auto

declare posLitsLoop.simps [simp del]

definition posFactor :: "string list \<Rightarrow> string \<Rightarrow> string" where
  "posFactor vars t =
     (let lits = posLitsLoop t vars 0 [] in
      if lits = [] then ''(0)'' else ''('' @ joinOpt '' + '' lits @ '')'')"

text \<open>The test \<open>/^-+$/\<close>: a non-empty string of dashes only.\<close>

definition allDashes :: "string \<Rightarrow> bool" where
  "allDashes t = (t \<noteq> [] \<and> list_all (\<lambda>c. c = CHR ''-'') t)"

definition formatPosFromTerms :: "string list \<Rightarrow> nat \<Rightarrow> string" where
  "formatPosFromTerms ts variables =
     (if list_ex allDashes ts then ''0''
      else concat (map (posFactor (varNames variables)) ts))"

text \<open>
  The rendering rule of a product term, literal by literal, as a specification to compare
  \<open>formatTerm\<close> with: a \<open>1\<close> gives the plain variable, a \<open>0\<close> the variable followed by a
  prime, a \<open>-\<close> nothing.
\<close>

definition sopLiteral :: "char \<Rightarrow> string \<Rightarrow> string" where
  "sopLiteral c v =
     (if c = CHR ''1'' then v else if c = CHR ''0'' then v @ [CHR 0x27] else [])"

definition sopTermSpec :: "string \<Rightarrow> string list \<Rightarrow> string" where
  "sopTermSpec t vars =
     (if list_all (\<lambda>c. c = CHR ''-'') t then ''1''
      else concat (map (\<lambda>i. sopLiteral (t ! i) (vars ! i)) [0..<length t]))"

definition isCube :: "string \<Rightarrow> bool" where
  "isCube t = list_all (\<lambda>c. c = CHR ''0'' \<or> c = CHR ''1'' \<or> c = CHR ''-'') t"

subsection \<open>\<open>runQM\<close>: seed cubes\<close>

text \<open>\<open>bin.split("1").length - 1\<close>: the number of \<open>1\<close> characters.\<close>

definition countOnes :: "string \<Rightarrow> nat" where
  "countOnes bin = length (filter (\<lambda>c. c = CHR ''1'') bin)"

text \<open>The \<open>forEach\<close> over \<open>[...minterms, ...dontCares]\<close>. \<open>groups[ones].push\<close> raises a
  \<open>TypeError\<close> when \<open>groups[ones]\<close> is \<open>undefined\<close>.\<close>

fun seedGroups :: "nat \<Rightarrow> nat list \<Rightarrow> groups \<Rightarrow> error + groups" where
  "seedGroups variables [] gs = Inr gs"
| "seedGroups variables (m # ms) gs =
     (let bin = padStart variables (CHR ''0'') (toString2 m);
          ones = countOnes bin
      in if ones < length gs then
           seedGroups variables ms
             (gs[ones := gs ! ones @ [\<lparr>term_str = bin, minterms = [m], isPrime = True\<rparr>]])
         else Inl TypeError)"

subsection \<open>\<open>runQM\<close>: one round of combination\<close>

text \<open>A loop over a list whose body may raise: the first error ends it.\<close>

fun foldE :: "('a \<Rightarrow> 's \<Rightarrow> error + 's) \<Rightarrow> 'a list \<Rightarrow> 's \<Rightarrow> error + 's" where
  "foldE f [] st = Inr st"
| "foldE f (a # as) st = (case f a st of Inl e \<Rightarrow> Inl e | Inr st' \<Rightarrow> foldE f as st')"

text \<open>\<open>t.isPrime = false\<close> on the object at index \<open>j\<close> of group \<open>i\<close>.\<close>

definition setNotPrime :: "nat \<Rightarrow> nat \<Rightarrow> groups \<Rightarrow> groups" where
  "setNotPrime i j gs = gs[i := (gs ! i)[j := (gs ! i ! j)\<lparr>isPrime := False\<rparr>]]"

text \<open>
  The body of the two inner loops for \<open>t1 = currentGroups[i][j]\<close> and
  \<open>t2 = currentGroups[i + 1][k]\<close>, on the state \<open>(currentGroups, nextGroups)\<close>. The indices
  \<open>i\<close>, \<open>j\<close>, \<open>k\<close> come from the loops and are in range of \<open>currentGroups\<close>;
  \<open>nextGroups[i].find\<close> raises a \<open>TypeError\<close> when \<open>nextGroups[i]\<close> is \<open>undefined\<close>.
\<close>

definition combineStep :: "nat \<Rightarrow> nat \<Rightarrow> nat \<Rightarrow> groups \<times> groups \<Rightarrow> error + groups \<times> groups" where
  "combineStep i j k st =
     (case st of (currentGroups, nextGroups) \<Rightarrow>
        (let t1 = currentGroups ! i ! j;
             t2 = currentGroups ! (i + 1) ! k;
             diff = diffIndex (term_str t1) (term_str t2)
         in if diff \<noteq> - 1 then
              (let newTerm = take (nat diff) (term_str t1) @ ''-'' @ drop (nat diff + 1) (term_str t1)
               in if i < length nextGroups then
                    Inr (setNotPrime (i + 1) k (setNotPrime i j currentGroups),
                         (case find (\<lambda>t. term_str t = newTerm) (nextGroups ! i) of
                            Some existing \<Rightarrow> nextGroups
                          | None \<Rightarrow>
                              nextGroups[i := nextGroups ! i @
                                [\<lparr>term_str = newTerm,
                                  minterms = sort (minterms t1 @ minterms t2),
                                  isPrime = True\<rparr>]]))
                  else Inl TypeError)
            else Inr st))"

definition loopT2 :: "nat \<Rightarrow> nat \<Rightarrow> groups \<times> groups \<Rightarrow> error + groups \<times> groups" where
  "loopT2 i j st = foldE (\<lambda>k. combineStep i j k) [0..<length (fst st ! (i + 1))] st"

definition loopT1 :: "nat \<Rightarrow> groups \<times> groups \<Rightarrow> error + groups \<times> groups" where
  "loopT1 i st = foldE (\<lambda>j. loopT2 i j) [0..<length (fst st ! i)] st"

text \<open>One pass of the \<open>while\<close> body up to the end of the \<open>for\<close> loop over \<open>i\<close>: the flags
  set in \<open>currentGroups\<close> and the filled \<open>nextGroups\<close>.\<close>

definition combineRound :: "nat \<Rightarrow> groups \<Rightarrow> error + groups \<times> groups" where
  "combineRound variables currentGroups =
     foldE loopT1 [0..<length currentGroups - 1]
       (currentGroups, replicate (variables + 1) [])"

text \<open>One more than the index of the last non-empty group: what the \<open>while\<close> loop
  decreases.\<close>

fun usedLen :: "'a list list \<Rightarrow> nat" where
  "usedLen [] = 0"
| "usedLen (g # gs) = (if usedLen gs = 0 then (if g = [] then 0 else 1) else Suc (usedLen gs))"

text \<open>
  Termination of the \<open>while\<close> loop. Whatever the groups hold, a round only fills
  \<open>nextGroups[i]\<close> from a non-empty \<open>currentGroups[i + 1]\<close>, so the index of the last
  non-empty group decreases from one pass to the next.
\<close>

definition shapeInv :: "groups \<Rightarrow> groups \<times> groups \<Rightarrow> bool" where
  "shapeInv cur0 st \<longleftrightarrow>
     map length (fst st) = map length cur0 \<and>
     (\<forall>i<length (snd st). snd st ! i \<noteq> [] \<longrightarrow> Suc i < length cur0 \<and> cur0 ! Suc i \<noteq> [])"

lemma foldE_preserves:
  assumes "foldE f as st = Inr st'" "I st"
    "\<And>a s s'. a \<in> set as \<Longrightarrow> I s \<Longrightarrow> f a s = Inr s' \<Longrightarrow> I s'"
  shows "I st'"
  using assms
proof (induction as arbitrary: st)
  case Nil
  then show ?case by simp
next
  case (Cons a as)
  from Cons.prems(1) obtain s1 where s1: "f a st = Inr s1" "foldE f as s1 = Inr st'"
    by (auto split: sum.splits)
  have "I s1" using Cons.prems(3)[OF _ Cons.prems(2) s1(1)] by simp
  then show ?case using Cons.IH[OF s1(2)] Cons.prems(3) by auto
qed

lemma foldE_total:
  assumes "I st" "\<And>a s. a \<in> set as \<Longrightarrow> I s \<Longrightarrow> \<exists>s'. f a s = Inr s' \<and> I s'"
  shows "\<exists>st'. foldE f as st = Inr st' \<and> I st'"
  using assms
proof (induction as arbitrary: st)
  case Nil
  then show ?case by simp
next
  case (Cons a as)
  obtain s1 where s1: "f a st = Inr s1" "I s1" using Cons.prems by fastforce
  show ?case using Cons.IH[OF s1(2)] Cons.prems(2) s1(1) by auto
qed

lemma map_length_setNotPrime: "map length (setNotPrime i j gs) = map length gs"
  by (cases "i < length gs") (simp_all add: setNotPrime_def map_update list_update_same_conv list_update_beyond)

lemma shapeInv_lengths:
  "shapeInv cur0 st \<Longrightarrow> i < length cur0 \<Longrightarrow> length (fst st ! i) = length (cur0 ! i)"
  by (metis length_map nth_map shapeInv_def)

lemma shapeInv_step:
  assumes "shapeInv cur0 st" "Suc i < length cur0" "k < length (cur0 ! Suc i)"
    "combineStep i j k st = Inr st'"
  shows "shapeInv cur0 st'"
proof -
  obtain c n where st: "st = (c, n)" by (cases st)
  have ne: "cur0 ! Suc i \<noteq> []" using assms(3) by auto
  show ?thesis
    using assms(1,2,4) ne unfolding st combineStep_def Let_def shapeInv_def
    by (auto simp: map_length_setNotPrime nth_list_update split: if_splits option.splits)
qed

lemma shapeInv_T2:
  assumes "shapeInv cur0 st" "Suc i < length cur0" "loopT2 i j st = Inr st'"
  shows "shapeInv cur0 st'"
proof (rule foldE_preserves[OF assms(3)[unfolded loopT2_def], where I="shapeInv cur0"])
  show "shapeInv cur0 st" by fact
  fix k s s' assume a: "k \<in> set [0..<length (fst st ! (i + 1))]" "shapeInv cur0 s"
    "combineStep i j k s = Inr s'"
  have "k < length (cur0 ! Suc i)" using a(1) shapeInv_lengths[OF assms(1,2)] by simp
  then show "shapeInv cur0 s'" using shapeInv_step[OF a(2) assms(2) _ a(3)] by simp
qed

lemma shapeInv_T1:
  assumes "shapeInv cur0 st" "Suc i < length cur0" "loopT1 i st = Inr st'"
  shows "shapeInv cur0 st'"
  by (rule foldE_preserves[OF assms(3)[unfolded loopT1_def], where I="shapeInv cur0"])
     (use assms shapeInv_T2 in auto)

lemma shapeInv_round:
  assumes "combineRound variables cur0 = Inr st'"
  shows "shapeInv cur0 st'"
proof (rule foldE_preserves[OF assms[unfolded combineRound_def], where I="shapeInv cur0"])
  have "(replicate (variables + 1) ([]::Implicant list)) ! i = []" if "i < variables + 1" for i
    using that by (simp del: replicate_Suc)
  then show "shapeInv cur0 (cur0, replicate (variables + 1) [])"
    by (simp add: shapeInv_def del: replicate_Suc)
  fix i s s' assume "i \<in> set [0..<length cur0 - 1]" "shapeInv cur0 s" "loopT1 i s = Inr s'"
  then show "shapeInv cur0 s'" using shapeInv_T1[of cur0 s i s'] by auto
qed

lemma usedLen_gt: "i < length gs \<Longrightarrow> gs ! i \<noteq> [] \<Longrightarrow> i < usedLen gs"
proof (induction gs arbitrary: i)
  case Nil
  then show ?case by simp
next
  case (Cons g gs)
  then show ?case by (cases i) (auto, fastforce)
qed

lemma usedLen_le: "(\<And>i. i < length gs \<Longrightarrow> gs ! i \<noteq> [] \<Longrightarrow> i < n) \<Longrightarrow> usedLen gs \<le> n"
proof (induction gs arbitrary: n)
  case Nil
  then show ?case by simp
next
  case (Cons g gs)
  have "usedLen gs \<le> n - 1"
  proof (rule Cons.IH)
    fix i assume "i < length gs" "gs ! i \<noteq> []"
    then show "i < n - 1" using Cons.prems[of "Suc i"] by auto
  qed
  moreover have "0 < n" if "g \<noteq> []" using Cons.prems[of 0] that by simp
  moreover have "usedLen gs \<noteq> 0 \<Longrightarrow> usedLen gs < n"
  proof -
    assume nz: "usedLen gs \<noteq> 0"
    have "\<exists>i<length gs. gs ! i \<noteq> []"
    proof (rule ccontr)
      assume "\<not> ?thesis"
      then have "usedLen gs \<le> 0" by (intro Cons.IH) auto
      then show False using nz by simp
    qed
    then obtain i where "i < length gs" "gs ! i \<noteq> []" by auto
    then have "Suc i < n" using Cons.prems[of "Suc i"] by auto
    then show ?thesis using \<open>usedLen gs \<le> n - 1\<close> by linarith
  qed
  ultimately show ?case by auto
qed

lemma combineRound_usedLen:
  assumes "combineRound variables cur0 = Inr (cur', nxt)" "\<not> list_all (\<lambda>g. g = []) nxt"
  shows "usedLen nxt < usedLen cur0"
proof -
  have inv: "shapeInv cur0 (cur', nxt)" by (rule shapeInv_round[OF assms(1)])
  obtain i0 where i0: "i0 < length nxt" "nxt ! i0 \<noteq> []"
    using assms(2) by (auto simp: list_all_length)
  have step: "Suc i < usedLen cur0" if "i < length nxt" "nxt ! i \<noteq> []" for i
    using inv that usedLen_gt[of "Suc i" cur0] by (auto simp: shapeInv_def)
  have "usedLen nxt \<le> usedLen cur0 - 1"
    by (rule usedLen_le) (use step in fastforce)
  moreover have "0 < usedLen cur0" using step[OF i0] by simp
  ultimately show ?thesis by simp
qed

subsection \<open>\<open>runQM\<close>: prime implicants\<close>

text \<open>
  The \<open>while\<close> loop over the rounds, on the state \<open>(currentGroups, primeImplicants)\<close>: after
  the round every cube of \<open>currentGroups\<close> whose flag is still set is pushed to
  \<open>primeImplicants\<close>; the loop ends when \<open>nextGroups\<close> is empty throughout.
\<close>

function primeLoop :: "nat \<Rightarrow> groups \<Rightarrow> Implicant list \<Rightarrow> error + Implicant list" where
  "primeLoop variables currentGroups primeImplicants =
     (if list_ex (\<lambda>g. g \<noteq> []) currentGroups then
        (case combineRound variables currentGroups of
           Inl e \<Rightarrow> Inl e
         | Inr (flagged, nextGroups) \<Rightarrow>
             (if list_all (\<lambda>g. g = []) nextGroups then
                Inr (primeImplicants @ filter isPrime (concat flagged))
              else primeLoop variables nextGroups
                     (primeImplicants @ filter isPrime (concat flagged))))
      else Inr primeImplicants)"
  by pat_completeness auto
termination
  by (relation "measure (\<lambda>(variables, currentGroups, primeImplicants). usedLen currentGroups)")
     (auto simp: combineRound_usedLen)

declare primeLoop.simps [simp del]

text \<open>The deduplication by cube string, on the state \<open>(seenTerms, uniquePIs)\<close>.\<close>

fun uniqueByTerm :: "Implicant list \<Rightarrow> string list \<times> Implicant list \<Rightarrow> string list \<times> Implicant list" where
  "uniqueByTerm [] st = st"
| "uniqueByTerm (p # ps) (seenTerms, uniquePIs) =
     (if term_str p \<in> set seenTerms then uniqueByTerm ps (seenTerms, uniquePIs)
      else uniqueByTerm ps (seenTerms @ [term_str p], uniquePIs @ [p]))"

text \<open>The prime implicants \<open>uniquePIs\<close> that \<open>runQM\<close> computes once it is past its two early
  returns.\<close>

definition qmPrimes :: "nat \<Rightarrow> nat list \<Rightarrow> nat list \<Rightarrow> error + Implicant list" where
  "qmPrimes variables ms dontCares =
     (case seedGroups variables (ms @ dontCares) (replicate (variables + 1) []) of
        Inl e \<Rightarrow> Inl e
      | Inr gs \<Rightarrow>
          (case primeLoop variables gs [] of
             Inl e \<Rightarrow> Inl e
           | Inr primeImplicants \<Rightarrow> Inr (snd (uniqueByTerm primeImplicants ([], [])))))"

subsection \<open>\<open>runQM\<close>: covering\<close>

text \<open>
  The table \<open>coverage\<close>: every required position is first given the empty list, then every
  prime is pushed to the list of each required position among its \<open>minterms\<close>. (The key of
  a push is a required position, so its list exists.)
\<close>

definition coveragePush ::
  "nat list \<Rightarrow> Implicant \<Rightarrow> nat \<Rightarrow> (nat \<rightharpoonup> Implicant list) \<Rightarrow> (nat \<rightharpoonup> Implicant list)" where
  "coveragePush remainingMinterms p m coverage =
     (if m \<in> set remainingMinterms then
        (case coverage m of
           Some ps \<Rightarrow> coverage(m \<mapsto> ps @ [p])
         | None \<Rightarrow> coverage)
      else coverage)"

definition buildCoverage :: "Implicant list \<Rightarrow> nat list \<Rightarrow> (nat \<rightharpoonup> Implicant list)" where
  "buildCoverage uniquePIs remainingMinterms =
     fold (\<lambda>p. fold (coveragePush remainingMinterms p) (minterms p)) uniquePIs
          (fold (\<lambda>m coverage. coverage(m \<mapsto> [])) remainingMinterms Map.empty)"

text \<open>\<open>finalPIs.push(pi)\<close> and the removal of the positions of \<open>pi\<close> from
  \<open>remainingMinterms\<close>, on the state \<open>(remainingMinterms, finalPIs)\<close>.\<close>

definition takePI :: "Implicant \<Rightarrow> nat list \<times> Implicant list \<Rightarrow> nat list \<times> Implicant list" where
  "takePI p st = (filter (\<lambda>m. m \<notin> set (minterms p)) (fst st), snd st @ [p])"

text \<open>\<open>remainingMinterms.filter(m => coverage[m] && coverage[m].length === 1)\<close>.\<close>

definition essentialPositions :: "(nat \<rightharpoonup> Implicant list) \<Rightarrow> nat list \<Rightarrow> nat list" where
  "essentialPositions coverage remainingMinterms =
     filter (\<lambda>m. case coverage m of None \<Rightarrow> False | Some ps \<Rightarrow> length ps = 1) remainingMinterms"

text \<open>The set \<open>newEssentials\<close> of the primes \<open>coverage[m][0]\<close>, in insertion order. Objects
  of \<open>uniquePIs\<close> have pairwise different cube strings, so identity of objects is equality
  of records.\<close>

definition newEssentialPIs :: "(nat \<rightharpoonup> Implicant list) \<Rightarrow> nat list \<Rightarrow> Implicant list" where
  "newEssentialPIs coverage remainingMinterms =
     setAddAll [] (map (\<lambda>m. hd (the (coverage m))) (essentialPositions coverage remainingMinterms))"

text \<open>
  Termination of the two covering loops. The table built by \<open>buildCoverage\<close> lists, for a
  required position, primes that hold that position, so a pass of the first loop that
  finds an essential prime removes a position; a prime chosen by the second loop with a
  positive count removes a position too.
\<close>

lemma set_setAddAll: "set (setAddAll acc xs) = set acc \<union> set xs"
  by (induction xs arbitrary: acc) auto

lemma distinct_setAddAll: "distinct acc \<Longrightarrow> distinct (setAddAll acc xs)"
  by (induction xs arbitrary: acc) auto

lemma coverage_init:
  "fold (\<lambda>m coverage. coverage(m \<mapsto> [])) ms cov m = (if m \<in> set ms then Some [] else cov m)"
  by (induction ms arbitrary: cov) auto

lemma coveragePush_apply:
  "coveragePush rem p a cov m =
     (if m = a \<and> m \<in> set rem then map_option (\<lambda>ps. ps @ [p]) (cov m) else cov m)"
  by (auto simp: coveragePush_def split: option.splits)

lemma coverage_inner:
  "fold (coveragePush rem p) ms cov m =
   (if m \<in> set rem then map_option (\<lambda>ps. ps @ replicate (count_list ms m) p) (cov m)
    else cov m)"
proof (induction ms arbitrary: cov)
  case Nil
  show ?case by (simp add: option.map_ident)
next
  case (Cons a ms)
  have "fold (coveragePush rem p) (a # ms) cov m
        = fold (coveragePush rem p) ms (coveragePush rem p a cov) m" by simp
  also have "\<dots> = (if m \<in> set rem
      then map_option (\<lambda>ps. ps @ replicate (count_list ms m) p) (coveragePush rem p a cov m)
      else coveragePush rem p a cov m)" by (rule Cons.IH)
  also have "\<dots> = (if m \<in> set rem
      then map_option (\<lambda>ps. ps @ replicate (count_list (a # ms) m) p) (cov m) else cov m)"
    unfolding coveragePush_apply
    by (auto simp: option.map_comp comp_def replicate_app_Cons_same)
  finally show ?case .
qed

lemma coverage_outer:
  "fold (\<lambda>p. fold (coveragePush rem p) (minterms p)) ups cov m =
   (if m \<in> set rem then
      map_option (\<lambda>ps. ps @ concat (map (\<lambda>p. replicate (count_list (minterms p) m) p) ups)) (cov m)
    else cov m)"
proof (induction ups arbitrary: cov)
  case Nil
  show ?case by (simp add: option.map_ident)
next
  case (Cons a ups)
  define cov1 where "cov1 = fold (coveragePush rem a) (minterms a) cov"
  have "fold (\<lambda>p. fold (coveragePush rem p) (minterms p)) (a # ups) cov m
        = fold (\<lambda>p. fold (coveragePush rem p) (minterms p)) ups cov1 m" by (simp add: cov1_def)
  also have "\<dots> = (if m \<in> set rem then
      map_option (\<lambda>ps. ps @ concat (map (\<lambda>p. replicate (count_list (minterms p) m) p) ups)) (cov1 m)
    else cov1 m)" by (rule Cons.IH)
  also have "\<dots> = (if m \<in> set rem then
      map_option (\<lambda>ps. ps @ concat (map (\<lambda>p. replicate (count_list (minterms p) m) p) (a # ups))) (cov m)
    else cov m)"
    unfolding cov1_def coverage_inner by (auto simp: option.map_comp comp_def)
  finally show ?case .
qed

lemma buildCoverage_eq:
  "buildCoverage ups rem m =
     (if m \<in> set rem then Some (concat (map (\<lambda>p. replicate (count_list (minterms p) m) p) ups))
      else None)"
  unfolding buildCoverage_def coverage_outer coverage_init by simp

lemma buildCoverage_mem:
  assumes "buildCoverage ups rem m = Some ps" "p \<in> set ps"
  shows "m \<in> set (minterms p)" "p \<in> set ups" "m \<in> set rem"
proof -
  have "m \<in> set rem" and ps: "ps = concat (map (\<lambda>p. replicate (count_list (minterms p) m) p) ups)"
    using assms(1) by (auto simp: buildCoverage_eq split: if_splits)
  then show "m \<in> set rem" by simp
  from assms(2) obtain q where q: "q \<in> set ups" "p \<in> set (replicate (count_list (minterms q) m) q)"
    unfolding ps by auto
  then have pq: "p = q" and "count_list (minterms q) m \<noteq> 0" by (auto split: if_splits)
  then show "m \<in> set (minterms p)" using count_list_0_iff by metis
  show "p \<in> set ups" using q(1) pq by simp
qed

lemma fst_fold_takePI:
  "fst (fold takePI ps st) = filter (\<lambda>m. \<forall>p\<in>set ps. m \<notin> set (minterms p)) (fst st)"
proof (induction ps arbitrary: st)
  case Nil
  show ?case by simp
next
  case (Cons a ps)
  have "fst (fold takePI (a # ps) st) = fst (fold takePI ps (takePI a st))" by simp
  also have "\<dots> = filter (\<lambda>m. \<forall>p\<in>set ps. m \<notin> set (minterms p)) (fst (takePI a st))"
    by (rule Cons.IH)
  also have "\<dots> = filter (\<lambda>m. \<forall>p\<in>set (a # ps). m \<notin> set (minterms p)) (fst st)"
    by (auto simp: takePI_def intro: filter_cong)
  finally show ?case .
qed

lemma snd_fold_takePI: "snd (fold takePI ps st) = snd st @ ps"
  by (induction ps arbitrary: st) (simp_all add: takePI_def)

lemma newEssentialPIs_covers:
  assumes "newEssentialPIs (buildCoverage ups ms) rem \<noteq> []"
  shows "\<exists>m\<in>set rem. \<exists>p\<in>set (newEssentialPIs (buildCoverage ups ms) rem). m \<in> set (minterms p)"
proof -
  from assms obtain m where m: "m \<in> set (essentialPositions (buildCoverage ups ms) rem)"
    unfolding newEssentialPIs_def by (cases "essentialPositions (buildCoverage ups ms) rem") auto
  then obtain ps where ps: "m \<in> set rem" "buildCoverage ups ms m = Some ps" "length ps = 1"
    by (auto simp: essentialPositions_def split: option.splits)
  then obtain p where p: "ps = [p]" by (cases ps) auto
  have "hd (the (buildCoverage ups ms m)) = p" using ps p by simp
  then have "p \<in> set (newEssentialPIs (buildCoverage ups ms) rem)"
    using m unfolding newEssentialPIs_def set_setAddAll by force
  moreover have "m \<in> set (minterms p)" using buildCoverage_mem(1)[OF ps(2)] p by simp
  ultimately show ?thesis using ps(1) by blast
qed

lemma essential_decreases:
  assumes "newEssentialPIs (buildCoverage ups ms) rem \<noteq> []"
  shows "length (fst (fold takePI (newEssentialPIs (buildCoverage ups ms) rem) (rem, fin))) < length rem"
proof -
  obtain m p where "m \<in> set rem" "p \<in> set (newEssentialPIs (buildCoverage ups ms) rem)"
    "m \<in> set (minterms p)" using newEssentialPIs_covers[OF assms] by blast
  then show ?thesis unfolding fst_fold_takePI by (auto intro!: length_filter_less[of m])
qed

text \<open>
  The first covering loop, on the state \<open>(remainingMinterms, finalPIs)\<close> and the flag
  \<open>changed\<close>; \<open>ms\<close> is the list \<open>minterms\<close> the table \<open>coverage\<close> was built for.
\<close>

function essentialLoop ::
  "Implicant list \<Rightarrow> nat list \<Rightarrow> bool \<Rightarrow> nat list \<times> Implicant list \<Rightarrow> nat list \<times> Implicant list" where
  "essentialLoop uniquePIs ms changed st =
     (if changed \<and> fst st \<noteq> [] then
        (let newEssentials = newEssentialPIs (buildCoverage uniquePIs ms) (fst st) in
         if newEssentials \<noteq> [] then essentialLoop uniquePIs ms True (fold takePI newEssentials st)
         else essentialLoop uniquePIs ms False st)
      else st)"
  by pat_completeness auto
termination
proof (relation "measures [\<lambda>(uniquePIs, ms, changed, st). length (fst st),
                           \<lambda>(uniquePIs, ms, changed, st). if changed then 1 else 0]", goal_cases)
  case 1
  show ?case by simp
next
  case (2 uniquePIs ms changed st newEssentials)
  then show ?case using essential_decreases[of uniquePIs ms "fst st" "snd st"] by simp
next
  case (3 uniquePIs ms changed st newEssentials)
  then show ?case by simp
qed

declare essentialLoop.simps [simp del]

text \<open>The \<open>forEach\<close> that looks for \<open>bestPI\<close>, on the state \<open>(bestPI, maxCover)\<close>.\<close>

definition pickStep ::
  "Implicant list \<Rightarrow> nat list \<Rightarrow> Implicant \<Rightarrow> Implicant option \<times> int \<Rightarrow> Implicant option \<times> int" where
  "pickStep finalPIs remainingMinterms p best =
     (if p \<in> set finalPIs then best
      else
        (let count = int (length (filter (\<lambda>m. m \<in> set remainingMinterms) (minterms p)))
         in if count > snd best then (Some p, count) else best))"

definition pickBest :: "Implicant list \<Rightarrow> Implicant list \<Rightarrow> nat list \<Rightarrow> Implicant option \<times> int" where
  "pickBest uniquePIs finalPIs remainingMinterms =
     fold (pickStep finalPIs remainingMinterms) uniquePIs (None, - 1)"

definition bestOK :: "nat list \<Rightarrow> Implicant option \<times> int \<Rightarrow> bool" where
  "bestOK rem best \<longleftrightarrow>
     (case fst best of None \<Rightarrow> True
      | Some q \<Rightarrow> snd best = int (length (filter (\<lambda>m. m \<in> set rem) (minterms q))))"

lemma pickStep_bestOK: "bestOK rem best \<Longrightarrow> bestOK rem (pickStep fin rem p best)"
  by (cases best) (auto simp: bestOK_def pickStep_def Let_def split: option.splits)

lemma fold_pickStep_bestOK: "bestOK rem best \<Longrightarrow> bestOK rem (fold (pickStep fin rem) ups best)"
  by (induction ups arbitrary: best) (simp_all add: pickStep_bestOK)

lemma pickBest_count:
  "pickBest ups fin rem = (Some q, mc) \<Longrightarrow> mc = int (length (filter (\<lambda>m. m \<in> set rem) (minterms q)))"
  using fold_pickStep_bestOK[of rem "(None, - 1)" fin ups] unfolding pickBest_def
  by (simp add: bestOK_def)

lemma greedy_decreases:
  assumes "pickBest ups fin rem = (Some q, mc)" "0 < mc"
  shows "length (fst (takePI q (rem, fin))) < length rem"
proof -
  have "filter (\<lambda>m. m \<in> set rem) (minterms q) \<noteq> []" using pickBest_count[OF assms(1)] assms(2) by auto
  then obtain m where "m \<in> set rem" "m \<in> set (minterms q)"
    by (metis (mono_tags, lifting) filter_False)
  then show ?thesis by (auto simp: takePI_def intro!: length_filter_less[of m])
qed

text \<open>
  The second covering loop. It ends with \<open>remainingMinterms\<close> empty, or through its
  \<open>break\<close> when no prime outside \<open>finalPIs\<close> holds a remaining position.
\<close>

function greedyLoop :: "Implicant list \<Rightarrow> nat list \<times> Implicant list \<Rightarrow> nat list \<times> Implicant list" where
  "greedyLoop uniquePIs st =
     (if fst st \<noteq> [] then
        (case pickBest uniquePIs (snd st) (fst st) of
           (Some bestPI, maxCover) \<Rightarrow>
             if maxCover > 0 then greedyLoop uniquePIs (takePI bestPI st) else st
         | (None, maxCover) \<Rightarrow> st)
      else st)"
  by pat_completeness auto
termination
proof (relation "measure (\<lambda>(uniquePIs, st). length (fst st))", goal_cases)
  case 1
  show ?case by simp
next
  case (2 uniquePIs st x y bestPI)
  then show ?case using greedy_decreases[of uniquePIs "snd st" "fst st" bestPI y] by simp
qed

declare greedyLoop.simps [simp del]

subsection \<open>\<open>runQM\<close> and \<open>solveCustom\<close>\<close>

text \<open>The state \<open>(remainingMinterms, finalPIs)\<close> after both covering loops.\<close>

definition qmCover :: "Implicant list \<Rightarrow> nat list \<Rightarrow> nat list \<times> Implicant list" where
  "qmCover uniquePIs ms = greedyLoop uniquePIs (essentialLoop uniquePIs ms True (ms, []))"

definition runQM :: "nat \<Rightarrow> nat list \<Rightarrow> nat list \<Rightarrow> error + QMResult" where
  "runQM variables ms dontCares =
     (if ms = [] then Inr \<lparr>qm_expression = ''0'', qm_groups = [], qm_terms = []\<rparr>
      else if length ms + length dontCares = 2 ^ variables then
        Inr \<lparr>qm_expression = ''1'', qm_groups = [ms @ dontCares],
             qm_terms = [replicate variables (CHR ''-'')]\<rparr>
      else
        (case qmPrimes variables ms dontCares of
           Inl e \<Rightarrow> Inl e
         | Inr uniquePIs \<Rightarrow>
             (let finalPIs = snd (qmCover uniquePIs ms);
                  expr = join '' + '' (map (\<lambda>p. formatTerm (term_str p) (varNames variables)) finalPIs)
              in Inr \<lparr>qm_expression = (if expr = [] then ''0'' else expr),
                      qm_groups = map minterms finalPIs,
                      qm_terms = map term_str finalPIs\<rparr>)))"

text \<open>The positions that are neither true nor don't-care, ascending: the set of all indices
  with the two lists deleted, then sorted.\<close>

definition zerosOf :: "nat \<Rightarrow> nat list \<Rightarrow> nat list \<Rightarrow> nat list" where
  "zerosOf variables ms dontCares =
     sort (filter (\<lambda>i. i \<notin> set dontCares) (filter (\<lambda>i. i \<notin> set ms) [0..<2 ^ variables]))"

definition solveCustom :: "nat \<Rightarrow> nat list \<Rightarrow> nat list \<Rightarrow> bool \<Rightarrow> error + SolverResult" where
  "solveCustom variables ms dontCares isSop =
     (if \<not> isSop then
        (let zeros = zerosOf variables ms dontCares in
         if zeros = [] then Inr \<lparr>expression = ''1'', essentials = []\<rparr>
         else
           (case runQM variables zeros dontCares of
              Inl e \<Rightarrow> Inl e
            | Inr solution \<Rightarrow>
                Inr \<lparr>expression = formatPosFromTerms (qm_terms solution) variables,
                     essentials = qm_groups solution\<rparr>))
      else
        (case runQM variables ms dontCares of
           Inl e \<Rightarrow> Inl e
         | Inr solution \<Rightarrow>
             Inr \<lparr>expression = qm_expression solution, essentials = qm_groups solution\<rparr>))"

text \<open>The inputs the solver is specified for: between two and five variables, and two
  disjoint sets of positions below \<open>2 ^ variables\<close>, each given as a list without
  repetition.\<close>

definition validInput :: "nat \<Rightarrow> nat list \<Rightarrow> nat list \<Rightarrow> bool" where
  "validInput variables ms dontCares \<longleftrightarrow>
     2 \<le> variables \<and> variables \<le> 5 \<and> distinct (ms @ dontCares) \<and>
     list_all (\<lambda>m. m < 2 ^ variables) (ms @ dontCares)"

text \<open>The list of required positions \<open>runQM\<close> is called with: the true positions in SOP
  form, the complement in POS form.\<close>

definition requiredOf :: "nat \<Rightarrow> nat list \<Rightarrow> nat list \<Rightarrow> bool \<Rightarrow> nat list" where
  "requiredOf variables ms dontCares isSop =
     (if isSop then ms else zerosOf variables ms dontCares)"

text \<open>
  The value of \<open>currentGroups\<close> at the head of pass \<open>k\<close> of the \<open>while\<close> loop that starts
  from the groups \<open>gs\<close>, when the loop gets that far: every implicant that \<open>runQM\<close> builds is
  in one of these.
\<close>

fun nthRound :: "nat \<Rightarrow> groups \<Rightarrow> nat \<Rightarrow> groups option" where
  "nthRound variables gs 0 = Some gs"
| "nthRound variables gs (Suc k) =
     (case nthRound variables gs k of
        None \<Rightarrow> None
      | Some currentGroups \<Rightarrow>
          if list_ex (\<lambda>g. g \<noteq> []) currentGroups then
            (case combineRound variables currentGroups of
               Inl e \<Rightarrow> None
             | Inr (flagged, nextGroups) \<Rightarrow>
                 if list_all (\<lambda>g. g = []) nextGroups then None else Some nextGroups)
          else None)"

section \<open>Group rectangles on the grid (KmapGrid)\<close>

subsection \<open>Minimal cyclic interval\<close>

text \<open>The remainder operator \<open>%\<close> on integers: the result takes the sign of the dividend.
  A zero divisor gives \<open>NaN\<close>, which every comparison answers with \<open>false\<close>; the one use
  below writes that case out.\<close>

definition jsRem :: "int \<Rightarrow> int \<Rightarrow> int" where
  "jsRem a b = (if 0 \<le> a then a mod \<bar>b\<bar> else - ((- a) mod \<bar>b\<bar>))"

definition isInCyclicInterval :: "int \<Rightarrow> int \<Rightarrow> int \<Rightarrow> int \<Rightarrow> bool" where
  "isInCyclicInterval v start len sz =
     (if sz = 0 then False else jsRem (v - start + sz) sz < len)"

text \<open>\<open>Array.from(new Set(xs)).sort((a, b) => a - b)\<close>.\<close>

definition uniqueSorted :: "int list \<Rightarrow> int list" where
  "uniqueSorted xs = sort (setAddAll [] xs)"

record interval =
  start :: int
  len :: int

text \<open>The inner loop over \<open>start\<close>, on the state \<open>(bestStart, bestLen)\<close>; it ends at the
  first start whose window holds every index.\<close>

function startLoop :: "int list \<Rightarrow> int \<Rightarrow> int \<Rightarrow> int \<Rightarrow> int \<times> int \<Rightarrow> int \<times> int" where
  "startLoop uniq sz l s (bestStart, bestLen) =
     (if s < sz then
        (if list_all (\<lambda>v. isInCyclicInterval v s l sz) uniq then
           (if l < bestLen then (s, l) else (bestStart, bestLen))
         else startLoop uniq sz l (s + 1) (bestStart, bestLen))
      else (bestStart, bestLen))"
  by pat_completeness auto
termination
  by (relation "measure (\<lambda>(uniq, sz, l, s, st). nat (sz - s))") auto

declare startLoop.simps [simp del]

text \<open>The outer loop over \<open>len\<close>; it ends as soon as \<open>bestLen\<close> has been set.\<close>

function lenLoop :: "int list \<Rightarrow> int \<Rightarrow> int \<Rightarrow> int \<times> int \<Rightarrow> int \<times> int" where
  "lenLoop uniq sz l (bestStart, bestLen) =
     (if l \<le> sz then
        (let st = startLoop uniq sz l 0 (bestStart, bestLen) in
         if snd st \<noteq> sz + 1 then st else lenLoop uniq sz (l + 1) st)
      else (bestStart, bestLen))"
  by pat_completeness auto
termination
  by (relation "measure (\<lambda>(uniq, sz, l, st). nat (sz + 1 - l))") auto

declare lenLoop.simps [simp del]

definition minimalCyclicInterval :: "int list \<Rightarrow> int \<Rightarrow> interval" where
  "minimalCyclicInterval indices sz =
     (if indices = [] then \<lparr>start = 0, len = 0\<rparr>
      else
        (let uniq = uniqueSorted indices in
         if int (length uniq) = sz then \<lparr>start = 0, len = sz\<rparr>
         else
           (case lenLoop uniq sz 1 (0, sz + 1) of
              (bestStart, bestLen) \<Rightarrow> \<lparr>start = bestStart, len = min bestLen sz\<rparr>)))"

text \<open>
  The cyclic window \<open>[s, s + l)\<close> modulo \<open>sz\<close>, as a specification: the indices
  \<open>(s + k) mod sz\<close> for \<open>0 \<le> k < l\<close>.
\<close>

definition inCyclicWindow :: "int \<Rightarrow> int \<Rightarrow> int \<Rightarrow> int \<Rightarrow> bool" where
  "inCyclicWindow v s l sz = (v \<in> set (map (\<lambda>k. (s + k) mod sz) [0..l - 1]))"

definition windowHoldsAll :: "int list \<Rightarrow> int \<Rightarrow> int \<Rightarrow> int \<Rightarrow> bool" where
  "windowHoldsAll indices s l sz = list_all (\<lambda>v. inCyclicWindow v s l sz) indices"

subsection \<open>Group overlays\<close>

text \<open>The type \<open>GroupRect\<close> of the source; its fields \<open>x\<close>, \<open>y\<close>, \<open>w\<close>, \<open>h\<close> are named
  \<open>rect_x\<close>, \<open>rect_y\<close>, \<open>rect_w\<close>, \<open>rect_h\<close> here.\<close>

record GroupRect =
  groupId :: nat
  rect_x :: int
  rect_y :: int
  rect_w :: int
  rect_h :: int
  area :: int
  tileId :: string

text \<open>The decimal text of an integer, as a template literal prints it.\<close>

definition intToString :: "int \<Rightarrow> string" where
  "intToString i = (if i < 0 then ''-'' @ natToString (nat (- i)) else natToString (nat i))"

text \<open>
  \<open>Array.prototype.sort(cmp)\<close> is a stable sort: for a comparator that orders the elements
  consistently the result is the one of the stable insertion sort below, where an element
  is placed before the first later element it does not compare greater than.
\<close>

fun insertBy :: "('a \<Rightarrow> 'a \<Rightarrow> int) \<Rightarrow> 'a \<Rightarrow> 'a list \<Rightarrow> 'a list" where
  "insertBy cmp a [] = [a]"
| "insertBy cmp a (b # bs) = (if cmp a b \<le> 0 then a # b # bs else b # insertBy cmp a bs)"

definition sortBy :: "('a \<Rightarrow> 'a \<Rightarrow> int) \<Rightarrow> 'a list \<Rightarrow> 'a list" where
  "sortBy cmp xs = foldr (insertBy cmp) xs []"

text \<open>The comparator \<open>(a, b) => b.area - a.area || a.groupId - b.groupId\<close>.\<close>

definition rectCompare :: "GroupRect \<Rightarrow> GroupRect \<Rightarrow> int" where
  "rectCompare a b =
     (if area b - area a \<noteq> 0 then area b - area a else int (groupId a) - int (groupId b))"

text \<open>The map \<open>coordByMinterm\<close>: for every row \<open>r\<close> and column \<open>c\<close>, in this order, the key
  \<open>getMintermIndex(rowCodes[r], colCodes[c], mapIndex)\<close> is set to \<open>(r, c)\<close>.\<close>

definition buildCoordByMinterm ::
  "string list \<Rightarrow> string list \<Rightarrow> int option \<Rightarrow> (int option \<rightharpoonup> nat \<times> nat)" where
  "buildCoordByMinterm rowCodes colCodes mapIndex =
     fold (\<lambda>r coordByMinterm.
             fold (\<lambda>c coordByMinterm.
                     coordByMinterm(getMintermIndex (rowCodes ! r) (colCodes ! c) (Passed mapIndex)
                                    \<mapsto> (r, c)))
                  [0..<length colCodes] coordByMinterm)
          [0..<length rowCodes] Map.empty"

text \<open>The body of \<open>groups.forEach((group, groupId) => ...)\<close>: the rectangles one group adds.\<close>

definition groupRects ::
  "(int option \<rightharpoonup> nat \<times> nat) \<Rightarrow> nat \<Rightarrow> nat \<Rightarrow> int list \<Rightarrow> nat \<Rightarrow> GroupRect list" where
  "groupRects coordByMinterm rowCount colCount grp gid =
     (let coords = List.map_filter (\<lambda>m. coordByMinterm (Some m)) grp in
      if coords = [] then []
      else
        (let rows = map (\<lambda>p. int (fst p)) coords;
             cols = map (\<lambda>p. int (snd p)) coords;
             rowInterval = minimalCyclicInterval rows (int rowCount);
             colInterval = minimalCyclicInterval cols (int colCount);
             rowWraps = (start rowInterval + len rowInterval > int rowCount);
             colWraps = (start colInterval + len colInterval > int colCount);
             yOffsets = (if rowWraps then [0, - int rowCount] else [0]);
             xOffsets = (if colWraps then [0, - int colCount] else [0])
         in concat (map (\<lambda>dy. map (\<lambda>dx.
              \<lparr>groupId = gid,
               rect_x = start colInterval + dx,
               rect_y = start rowInterval + dy,
               rect_w = len colInterval,
               rect_h = len rowInterval,
               area = len colInterval * len rowInterval,
               tileId = natToString gid @ '':'' @ intToString dx @ '':'' @ intToString dy\<rparr>)
              xOffsets) yOffsets)))"

text \<open>\<open>buildGroupOverlays(mapIndex)\<close> of the component rendered for \<open>variables\<close> and
  \<open>groups\<close>; the optional property \<open>groups\<close> is \<open>None\<close> when it is left out.\<close>

definition buildGroupOverlays :: "nat \<Rightarrow> int list list option \<Rightarrow> int option \<Rightarrow> GroupRect list" where
  "buildGroupOverlays variables groups mapIndex =
     (case groups of
        None \<Rightarrow> []
      | Some gs \<Rightarrow>
          if gs = [] then []
          else
            (let rowCodes = generateGrayCodes (fst (getGridDimensions variables));
                 colCodes = generateGrayCodes (snd (getGridDimensions variables));
                 coordByMinterm = buildCoordByMinterm rowCodes colCodes mapIndex;
                 rects = concat (map (\<lambda>(grp, gid).
                            groupRects coordByMinterm (length rowCodes) (length colCodes) grp gid)
                          (zip gs [0..<length gs]))
             in sortBy rectCompare rects))"

text \<open>The order the overlays are claimed to be in: larger area first, and among equal
  areas the smaller group index first.\<close>

definition rectBefore :: "GroupRect \<Rightarrow> GroupRect \<Rightarrow> bool" where
  "rectBefore a b = (area b < area a \<or> (area a = area b \<and> groupId a \<le> groupId b))"

section \<open>Cubes and the positions they hold\<close>

text \<open>The binary string of a position on \<open>variables\<close> bits, most significant bit first:
  the string \<open>bin\<close> of the sources. Variable \<open>x_i\<close> is bit \<open>i\<close> of this string.\<close>

definition bitsOf :: "nat \<Rightarrow> nat \<Rightarrow> string" where
  "bitsOf variables m = padStart variables (CHR ''0'') (toString2 m)"

text \<open>A cube matches a bit string when they agree wherever the cube has no dash.\<close>

definition cubeMatches :: "string \<Rightarrow> string \<Rightarrow> bool" where
  "cubeMatches t s = list_all2 (\<lambda>c b. c = CHR ''-'' \<or> c = b) t s"

definition holds :: "nat \<Rightarrow> string \<Rightarrow> nat \<Rightarrow> bool" where
  "holds variables t m = cubeMatches t (bitsOf variables m)"

definition countDashes :: "string \<Rightarrow> nat" where
  "countDashes t = length (filter (\<lambda>c. c = CHR ''-'') t)"

text \<open>
  What every implicant built by \<open>runQM\<close> satisfies: its string is a cube on \<open>variables\<close>
  characters, and its list \<open>minterms\<close> is the strictly increasing list of the positions
  below \<open>2 ^ variables\<close> that the cube holds, \<open>2 ^ k\<close> of them for \<open>k\<close> dashes, all among the
  seed positions \<open>S\<close>.
\<close>

definition cubeInv :: "nat set \<Rightarrow> nat \<Rightarrow> Implicant \<Rightarrow> bool" where
  "cubeInv S variables p \<longleftrightarrow>
     isCube (term_str p) \<and> length (term_str p) = variables \<and>
     sorted_wrt (<) (minterms p) \<and>
     set (minterms p) = {m. m < 2 ^ variables \<and> holds variables (term_str p) m} \<and>
     length (minterms p) = 2 ^ countDashes (term_str p) \<and>
     set (minterms p) \<subseteq> S"

text \<open>The part of the invariant that claim C9 states, in executable form.\<close>

definition cubeCardOK :: "nat \<Rightarrow> Implicant \<Rightarrow> bool" where
  "cubeCardOK variables p \<longleftrightarrow>
     length (minterms p) = 2 ^ countDashes (term_str p) \<and>
     sorted_wrt (<) (minterms p) \<and>
     list_all (\<lambda>m. m < 2 ^ variables) (minterms p)"

text \<open>The cube string and the positions of an implicant: what a flag update leaves alone.\<close>

definition core :: "Implicant \<Rightarrow> string \<times> nat list" where
  "core p = (term_str p, minterms p)"

text \<open>
  The groups at the head of the \<open>while\<close> loop in round \<open>r\<close>: one group per number of ones,
  every cube with \<open>r\<close> dashes, the invariant above, and its flag set.
\<close>

definition roundPre :: "nat set \<Rightarrow> nat \<Rightarrow> nat \<Rightarrow> groups \<Rightarrow> bool" where
  "roundPre S variables r cur \<longleftrightarrow>
     length cur = variables + 1 \<and>
     (\<forall>p\<in>set (concat cur). cubeInv S variables p \<and> countDashes (term_str p) = r \<and> isPrime p)"

text \<open>
  The state \<open>(currentGroups, nextGroups)\<close> inside a round that started from \<open>cur0\<close>: only
  flags of \<open>currentGroups\<close> have changed, the cubes of \<open>nextGroups\<close> have one more dash, and
  every cube whose flag was cleared lies inside a cube of \<open>nextGroups\<close>.
\<close>

definition roundInv :: "nat set \<Rightarrow> nat \<Rightarrow> nat \<Rightarrow> groups \<Rightarrow> groups \<times> groups \<Rightarrow> bool" where
  "roundInv S variables r cur0 st \<longleftrightarrow>
     map (map core) (fst st) = map (map core) cur0 \<and>
     length (snd st) = variables + 1 \<and>
     (\<forall>q\<in>set (concat (snd st)).
        cubeInv S variables q \<and> countDashes (term_str q) = Suc r \<and> isPrime q) \<and>
     (\<forall>p\<in>set (concat (fst st)).
        \<not> isPrime p \<longrightarrow> (\<exists>q\<in>set (concat (snd st)). set (minterms p) \<subseteq> set (minterms q)))"

text \<open>
  The state \<open>(remainingMinterms, finalPIs)\<close> of the covering loops: the chosen primes are
  among \<open>uniquePIs\<close>, and the remaining positions are the required ones that no chosen
  prime holds.
\<close>

definition coverInv :: "Implicant list \<Rightarrow> nat list \<Rightarrow> nat list \<times> Implicant list \<Rightarrow> bool" where
  "coverInv uniquePIs ms st \<longleftrightarrow>
     set (snd st) \<subseteq> set uniquePIs \<and>
     set (fst st) = set ms - (\<Union>p\<in>set (snd st). set (minterms p))"

text \<open>
  The state \<open>(bestPI, maxCover)\<close> of the search for the best prime after the primes
  \<open>seen\<close>: \<open>maxCover\<close> bounds the count of every prime seen that is not chosen yet, and
  \<open>bestPI\<close> is one of them once \<open>maxCover\<close> has left \<open>-1\<close>.
\<close>

definition bestInv :: "Implicant list \<Rightarrow> Implicant list \<Rightarrow> nat list \<Rightarrow> Implicant option \<times> int \<Rightarrow> bool" where
  "bestInv seen fin rem best \<longleftrightarrow>
     - 1 \<le> snd best \<and>
     (fst best = None \<longrightarrow> snd best = - 1) \<and>
     (\<forall>q. fst best = Some q \<longrightarrow> q \<in> set seen \<and> q \<notin> set fin) \<and>
     (\<forall>p\<in>set seen. p \<notin> set fin \<longrightarrow>
        int (length (filter (\<lambda>m. m \<in> set rem) (minterms p))) \<le> snd best)"

text \<open>
  Completeness of the rounds. A cube is an implicant when every position it holds is a
  seed position. Group \<open>i\<close> holds a cube string when one of its implicants has it. The
  groups of round \<open>r\<close> are complete when every implicant with \<open>r\<close> dashes is in the group of
  its number of ones.
\<close>

definition hasTerm :: "groups \<Rightarrow> nat \<Rightarrow> string \<Rightarrow> bool" where
  "hasTerm gs i t \<longleftrightarrow> i < length gs \<and> (\<exists>p\<in>set (gs ! i). term_str p = t)"

definition implicantOf :: "nat set \<Rightarrow> nat \<Rightarrow> string \<Rightarrow> bool" where
  "implicantOf S variables t \<longleftrightarrow>
     isCube t \<and> length t = variables \<and> (\<forall>m<2 ^ variables. holds variables t m \<longrightarrow> m \<in> S)"

definition complete :: "nat set \<Rightarrow> nat \<Rightarrow> nat \<Rightarrow> groups \<Rightarrow> bool" where
  "complete S variables r gs \<longleftrightarrow>
     (\<forall>t. implicantOf S variables t \<and> countDashes t = r \<longrightarrow> hasTerm gs (countOnes t) t)"

section \<open>Reading an expression back\<close>

text \<open>
  The value of a returned expression at a position. The expression is read as text: a
  variable \<open>x_i\<close> (decimal index), a prime after a variable for its negation, the constants
  \<open>0\<close> and \<open>1\<close>, juxtaposition for conjunction, \<open>+\<close> for disjunction, and parentheses around
  the factors of a product of sums. Variable \<open>x_i\<close> is bit \<open>i\<close> of the position, most
  significant bit first. Text that is not of this shape has no value (\<open>None\<close>).
\<close>

datatype token = TVar nat | TPrime | TPlus | TOpen | TClose | TConst bool | TBad

definition isDigit :: "char \<Rightarrow> bool" where
  "isDigit c = isDigitR 10 c"

function tokenize :: "string \<Rightarrow> token list" where
  "tokenize [] = []"
| "tokenize (c # cs) =
     (if c = CHR '' '' then tokenize cs
      else if c = CHR ''+'' then TPlus # tokenize cs
      else if c = CHR ''('' then TOpen # tokenize cs
      else if c = CHR '')'' then TClose # tokenize cs
      else if c = CHR 0x27 then TPrime # tokenize cs
      else if c = CHR ''0'' then TConst False # tokenize cs
      else if c = CHR ''1'' then TConst True # tokenize cs
      else if c = CHR ''x'' \<and> take 1 cs = ''_'' \<and> takeWhile isDigit (drop 1 cs) \<noteq> [] then
        TVar (digitsVal 10 (takeWhile isDigit (drop 1 cs))) # tokenize (dropWhile isDigit (drop 1 cs))
      else TBad # tokenize cs)"
  by pat_completeness auto
termination
  by (relation "measure length") (auto simp: less_Suc_eq_le intro: le_trans[OF length_dropWhile_le])

declare tokenize.simps(2) [simp del]

text \<open>A product: literals and constants side by side.\<close>

fun evalProduct :: "(nat \<Rightarrow> bool) \<Rightarrow> token list \<Rightarrow> bool option" where
  "evalProduct env [] = Some True"
| "evalProduct env (TVar i # TPrime # ts) = map_option (\<lambda>b. \<not> env i \<and> b) (evalProduct env ts)"
| "evalProduct env (TVar i # ts) = map_option (\<lambda>b. env i \<and> b) (evalProduct env ts)"
| "evalProduct env (TConst c # ts) = map_option (\<lambda>b. c \<and> b) (evalProduct env ts)"
| "evalProduct env (t # ts) = None"

definition evalTerm :: "(nat \<Rightarrow> bool) \<Rightarrow> token list \<Rightarrow> bool option" where
  "evalTerm env ts = (if ts = [] then None else evalProduct env ts)"

text \<open>The summands between the \<open>+\<close> signs.\<close>

fun splitPlus :: "token list \<Rightarrow> token list \<Rightarrow> token list list" where
  "splitPlus cur [] = [cur]"
| "splitPlus cur (t # ts) =
     (if t = TPlus then cur # splitPlus [] ts else splitPlus (cur @ [t]) ts)"

definition evalSum :: "(nat \<Rightarrow> bool) \<Rightarrow> token list \<Rightarrow> bool option" where
  "evalSum env ts =
     (let vs = map (evalTerm env) (splitPlus [] ts) in
      if list_ex (\<lambda>v. v = None) vs then None else Some (list_ex (\<lambda>v. v = Some True) vs))"

text \<open>The parenthesised factors, one after the other; \<open>None\<close> when the parentheses do not
  pair up.\<close>

fun splitFactors :: "token list option \<Rightarrow> token list \<Rightarrow> token list list option" where
  "splitFactors None [] = Some []"
| "splitFactors (Some g) [] = None"
| "splitFactors None (t # ts) = (if t = TOpen then splitFactors (Some []) ts else None)"
| "splitFactors (Some g) (t # ts) =
     (if t = TClose then map_option (Cons g) (splitFactors None ts)
      else if t = TOpen then None
      else splitFactors (Some (g @ [t])) ts)"

definition evalTokens :: "(nat \<Rightarrow> bool) \<Rightarrow> token list \<Rightarrow> bool option" where
  "evalTokens env ts =
     (if TOpen \<notin> set ts \<and> TClose \<notin> set ts then evalSum env ts
      else
        (case splitFactors None ts of
           None \<Rightarrow> None
         | Some fs \<Rightarrow>
             (let vs = map (evalSum env) fs in
              if list_ex (\<lambda>v. v = None) vs then None
              else Some (list_all (\<lambda>v. v = Some True) vs))))"

text \<open>The value of variable \<open>x_i\<close> at position \<open>m\<close>.\<close>

definition varValue :: "nat \<Rightarrow> nat \<Rightarrow> nat \<Rightarrow> bool" where
  "varValue variables m i = (strAt (bitsOf variables m) i = Some (CHR ''1''))"

definition evalExpr :: "nat \<Rightarrow> string \<Rightarrow> nat \<Rightarrow> bool option" where
  "evalExpr variables expr m = evalTokens (varValue variables m) (tokenize expr)"

subsection \<open>The tokens of a formatted cube\<close>

text \<open>What may follow a variable name in the text for its index to be read in full:
  nothing, or a character that is not a digit.\<close>

definition clean :: "string \<Rightarrow> bool" where
  "clean rest \<longleftrightarrow> (case rest of [] \<Rightarrow> True | c # cs \<Rightarrow> \<not> isDigit c)"

text \<open>The tokens of the SOP literal of character \<open>c\<close> at position \<open>i\<close>, and of a whole SOP
  term.\<close>

definition litTok :: "char \<Rightarrow> nat \<Rightarrow> token list" where
  "litTok c i = (if c = CHR ''1'' then [TVar i] else if c = CHR ''0'' then [TVar i, TPrime] else [])"

definition termTokens :: "string \<Rightarrow> token list" where
  "termTokens t =
     (if list_all (\<lambda>c. c = CHR ''-'') t then [TConst True]
      else concat (map (\<lambda>i. litTok (t ! i) i) [0..<length t]))"

text \<open>Token lists joined by \<open>+\<close>.\<close>

fun sumTokens :: "token list list \<Rightarrow> token list" where
  "sumTokens [] = []"
| "sumTokens [a] = a"
| "sumTokens (a # b # bs) = a @ TPlus # sumTokens (b # bs)"

text \<open>The literals of a POS factor as pairs of a variable index and whether the literal is
  primed (a \<open>1\<close> of the cube gives a primed literal), their text and their tokens.\<close>

definition posIdxOf :: "string \<Rightarrow> nat list \<Rightarrow> (nat \<times> bool) list" where
  "posIdxOf t js =
     concat (map (\<lambda>i. if t ! i = CHR ''0'' then [(i, False)]
                       else if t ! i = CHR ''1'' then [(i, True)] else []) js)"

definition litStr :: "string list \<Rightarrow> nat \<times> bool \<Rightarrow> string" where
  "litStr vars l = vars ! fst l @ (if snd l then [CHR 0x27] else [])"

definition litToks :: "nat \<times> bool \<Rightarrow> token list" where
  "litToks l = TVar (fst l) # (if snd l then [TPrime] else [])"

definition factorTokens :: "string \<Rightarrow> token list" where
  "factorTokens t = TOpen # sumTokens (map litToks (posIdxOf t [0..<length t])) @ [TClose]"

section \<open>Facts about the string and number primitives\<close>

lemma toString2_bin: "set (toString2 n) \<subseteq> {CHR ''0'', CHR ''1''}"
  by (induction n rule: toString2.induct) (subst toString2.simps, auto simp: binDigit_def)

lemma toString2_ne: "toString2 n \<noteq> []"
  by (subst toString2.simps) auto

lemma toString2_len: "n < 2 ^ k \<Longrightarrow> 0 < k \<Longrightarrow> length (toString2 n) \<le> k"
proof (induction n arbitrary: k rule: toString2.induct)
  case (1 n)
  show ?case
  proof (cases "n < 2")
    case True
    then show ?thesis using 1(3) by (subst toString2.simps) auto
  next
    case False
    obtain j where kj: "k = Suc j" using 1(3) by (cases k) auto
    have "0 < j" using False 1(2) kj by (cases j) auto
    note k = kj this
    then have "n div 2 < 2 ^ j" using 1(2) by auto
    then have "length (toString2 (n div 2)) \<le> j" using 1(1)[OF False] k by auto
    then show ?thesis using False k by (subst toString2.simps) auto
  qed
qed

lemma digitsVal_snoc: "digitsVal r (ds @ [c]) = digitsVal r ds * r + digitVal c"
  by (simp add: digitsVal_def)

lemma digitVal_binDigit: "digitVal (binDigit d) = (if d = 0 then 0 else 1)"
  by (simp add: digitVal_def binDigit_def)

lemma digitsVal_toString2: "digitsVal 2 (toString2 n) = n"
proof (induction n rule: toString2.induct)
  case (1 n)
  show ?case
  proof (cases "n < 2")
    case True
    then show ?thesis by (subst toString2.simps) (auto simp: digitsVal_def digitVal_binDigit)
  next
    case False
    then show ?thesis using 1
      by (subst toString2.simps) (auto simp: digitsVal_snoc digitVal_binDigit, presburger+)
  qed
qed

lemma digitsVal_replicate0: "digitsVal r (replicate k (CHR ''0'') @ s) = digitsVal r s"
  by (induction k) (auto simp: digitsVal_def digitVal_def)

lemma digitsVal_cons: "digitsVal r (c # s) = digitVal c * r ^ length s + digitsVal r s"
proof (induction s rule: rev_induct)
  case Nil show ?case by (simp add: digitsVal_def)
next
  case (snoc x xs)
  have "digitsVal r (c # xs @ [x]) = digitsVal r ((c # xs) @ [x])" by simp
  also have "\<dots> = digitsVal r (c # xs) * r + digitVal x" by (rule digitsVal_snoc)
  finally show ?case using snoc by (simp add: digitsVal_snoc algebra_simps)
qed

lemma parseInt_bin:
  assumes "s \<noteq> []" "set s \<subseteq> {CHR ''0'', CHR ''1''}"
  shows "parseInt s 2 = Some (int (digitsVal 2 s))"
proof -
  obtain c t where s: "s = c # t" using assms(1) by (cases s) auto
  have c: "c = CHR ''0'' \<or> c = CHR ''1''" using assms(2) s by auto
  have w: "dropWhile isWhite s = s" using c s by (auto simp: isWhite_def)
  have d: "takeWhile (isDigitR 2) s = s" using assms(2)
    by (intro takeWhile_eq_all_conv[THEN iffD2]) (auto simp: isDigitR_def)
  show ?thesis using c s d w by (auto simp: parseInt_def Let_def)
qed

section \<open>Round trip between positions and grid coordinates\<close>

lemma bin_props:
  assumes "m < 2 ^ V" "0 < V"
  defines "bin \<equiv> padStart V (CHR ''0'') (toString2 m)"
  shows "length bin = V" "set bin \<subseteq> {CHR ''0'', CHR ''1''}" "digitsVal 2 bin = m"
  using toString2_len[OF assms(1,2)] toString2_bin[of m]
  by (auto simp: bin_def padStart_def digitsVal_replicate0 digitsVal_toString2)

lemma parseInt10_zero: "parseInt ''0'' 10 = Some 0"
  by code_simp

lemma parseInt10_one: "parseInt ''1'' 10 = Some 1"
  by code_simp

lemma parseInt10_bit:
  "c = CHR ''0'' \<or> c = CHR ''1'' \<Longrightarrow> parseInt [c] 10 = Some (if c = CHR ''1'' then 1 else 0)"
  using parseInt10_zero parseInt10_one by auto

text \<open>
  Claim C10. For every variable count \<open>V\<close> in \<open>{2, 3, 4, 5}\<close> and every position
  \<open>m < 2 ^ V\<close>, decomposing \<open>m\<close> with \<open>getCoordinates\<close> and passing the resulting
  \<open>rowBin\<close>, \<open>colBin\<close> and \<open>map\<close> to \<open>getMintermIndex\<close> (as its three arguments) gives
  back \<open>m\<close>.
\<close>

theorem getCoordinates_roundtrip:
  assumes V: "V \<in> {2, 3, 4, 5}" and m: "m < 2 ^ V"
  shows "getMintermIndex (rowBin (getCoordinates m V)) (colBin (getCoordinates m V))
           (Passed (map_sel (getCoordinates m V))) = Some (int m)"
proof -
  define bin where "bin = padStart V (CHR ''0'') (toString2 m)"
  have V0: "0 < V" using V by auto
  note bp = bin_props[OF m V0, folded bin_def]
  have ne: "bin \<noteq> []" using bp(1) V0 by auto
  have val: "parseInt (CHR ''0'' # bin) 2 = Some (int m)"
    using parseInt_bin[of "CHR ''0'' # bin"] bp(2,3) by (simp add: digitsVal_cons digitVal_def)
  have val': "parseInt bin 2 = Some (int m)"
    using parseInt_bin[OF ne bp(2)] bp(3) by simp
  consider "V = 2" | "V = 3" | "V = 4" | "V = 5" using V by auto
  then show ?thesis
  proof cases
    case 1
    have gc: "getCoordinates m V = \<lparr>rowBin = charAt bin 0, colBin = charAt bin 1, map_sel = Some 0\<rparr>"
      unfolding getCoordinates_def Let_def bin_def[symmetric] using 1 by simp
    obtain a b where "bin = [a, b]" using bp(1) 1
      by (cases bin; cases "tl bin") auto
    then show ?thesis using val unfolding gc getMintermIndex_def
      by (simp add: charAt_def)
  next
    case 2
    have gc: "getCoordinates m V = \<lparr>rowBin = charAt bin 0, colBin = sliceFrom bin 1, map_sel = Some 0\<rparr>"
      unfolding getCoordinates_def Let_def bin_def[symmetric] using 2 by simp
    obtain a t where "bin = a # t" using bp(1) 2 by (cases bin) auto
    then show ?thesis using val unfolding gc getMintermIndex_def
      by (simp add: charAt_def sliceFrom_def)
  next
    case 3
    have gc: "getCoordinates m V = \<lparr>rowBin = slice bin 0 2, colBin = sliceFrom bin 2, map_sel = Some 0\<rparr>"
      unfolding getCoordinates_def Let_def bin_def[symmetric] using 3 by simp
    show ?thesis using val unfolding gc getMintermIndex_def
      by (simp add: slice_def sliceFrom_def)
  next
    case 4
    have gc: "getCoordinates m V = \<lparr>rowBin = slice bin 1 3, colBin = sliceFrom bin 3,
                map_sel = parseInt (charAt bin 0) 10\<rparr>"
      unfolding getCoordinates_def Let_def bin_def[symmetric] using 4 by simp
    obtain a t where at: "bin = a # t" using bp(1) 4 by (cases bin) auto
    have a: "a = CHR ''0'' \<or> a = CHR ''1''" using bp(2) at by auto
    have t: "take 2 t @ drop 2 t = t" by simp
    have p: "(if parseInt [a] 10 = Some 1 then ''1'' else ''0'') = [a]"
      using a by (auto simp: parseInt10_bit)
    have "parseInt ([a] @ (take 2 t @ drop 2 t)) 2 = Some (int m)"
      unfolding t using val' at by simp
    then show ?thesis unfolding gc getMintermIndex_def using at p
      by (simp add: slice_def sliceFrom_def charAt_def)
  qed
qed

theorem getCoordinates_roundtrip_witness:
  "(5::nat) \<in> {2, 3, 4, 5} \<and> (21::nat) < 2 ^ 5 \<and>
   getMintermIndex (rowBin (getCoordinates 21 5)) (colBin (getCoordinates 21 5))
           (Passed (map_sel (getCoordinates 21 5))) = Some 21"
proof -
  have h1: "(5::nat) \<in> {2, 3, 4, 5}" by simp
  have h2: "(21::nat) < 2 ^ 5" by simp
  show ?thesis using h1 h2 getCoordinates_roundtrip[OF h1 h2] by simp
qed

section \<open>Rendering of product terms\<close>

lemma formatTermLoop_spec:
  assumes "isCube t" "length t \<le> length vars"
  shows "formatTermLoop t vars i (res, ad) =
         (res @ concat (map (\<lambda>i. sopLiteral (t ! i) (vars ! i)) [i..<length t]),
          ad \<and> list_all (\<lambda>c. c = CHR ''-'') (drop i t))"
  using assms
proof (induction t vars i "(res, ad)" arbitrary: res ad rule: formatTermLoop.induct)
  case (1 t vars i res ad)
  show ?case
  proof (cases "i < length t")
    case False
    then show ?thesis by (subst formatTermLoop.simps) simp
  next
    case True
    then have ti: "t ! i = CHR ''0'' \<or> t ! i = CHR ''1'' \<or> t ! i = CHR ''-''"
      using 1(3) by (auto simp: isCube_def list_all_iff)
    have upt: "[i..<length t] = i # [Suc i..<length t]" using True by (simp add: upt_rec)
    have drp: "drop i t = t ! i # drop (Suc i) t" using True by (simp add: Cons_nth_drop_Suc)
    have v: "varAt vars i = Some (vars ! i)" using True 1(4) by (simp add: varAt_def)
    show ?thesis
    proof (cases "t ! i = CHR ''-''")
      case d: True
      show ?thesis using True d 1(2)[OF True _ 1(3,4)] 
        by (subst formatTermLoop.simps) (simp add: upt drp sopLiteral_def)
    next
      case d: False
      show ?thesis using True d ti 1(1)[OF True _ 1(3,4)] v
        by (subst formatTermLoop.simps) (auto simp add: upt drp sopLiteral_def concatStr_def)
    qed
  qed
qed

lemma formatTerm_sopTermSpec:
  assumes "isCube t" "length t \<le> length vars"
  shows "formatTerm t vars = sopTermSpec t vars"
  using formatTermLoop_spec[OF assms, of 0 "[]" True]
  by (simp add: formatTerm_def sopTermSpec_def)

text \<open>
  Claim C2, as amended: for a cube \<open>t\<close> over \<open>0\<close>, \<open>1\<close>, \<open>-\<close> and at least as many variable names
  as the cube is long, \<open>formatTerm\<close> renders position \<open>i\<close> as the plain literal \<open>x_i\<close> when the
  cube has \<open>1\<close> there, as the negated literal \<open>x_i'\<close> when it has \<open>0\<close>, and as nothing when
  it has \<open>-\<close>; a cube of dashes only is rendered as the constant \<open>1\<close>. (The claim as written
  assigns the plain literal to \<open>0\<close> and the negated one to \<open>1\<close>.)
\<close>

theorem formatTerm_rule:
  assumes "isCube t" "length t \<le> length vars"
  shows "formatTerm t vars = sopTermSpec t vars"
  using formatTermLoop_spec[OF assms, of 0 "[]" True]
  by (simp add: formatTerm_def sopTermSpec_def)

theorem formatTerm_rule_witness:
  "isCube ''1-0'' \<and> length ''1-0'' \<le> length (varNames 3) \<and>
   formatTerm ''1-0'' (varNames 3) = ''x_0x_2'' @ [CHR 0x27]"
proof -
  have h1: "isCube ''1-0''" by (simp add: isCube_def)
  have h2: "length ''1-0'' \<le> length (varNames 3)" by (simp add: varNames_def)
  have "sopTermSpec ''1-0'' (varNames 3) = ''x_0x_2'' @ [CHR 0x27]" by code_simp
  then show ?thesis using h1 h2 formatTerm_rule[OF h1 h2] by simp
qed

text \<open>
  The cube \<open>01\<close> is rendered as \<open>x_0'x_1\<close>: the \<open>0\<close> gives the negated literal and the \<open>1\<close>
  the plain one, not \<open>x_0x_1'\<close> as the claim as written would have it.
\<close>

theorem formatTerm_polarity_counterexample:
  "formatTerm ''01'' (varNames 2) = ''x_0'' @ [CHR 0x27] @ ''x_1'' \<and>
   formatTerm ''01'' (varNames 2) \<noteq> ''x_0x_1'' @ [CHR 0x27]"
  by code_simp

section \<open>The minimal cyclic interval\<close>

lemma inWin_iff:
  assumes "1 \<le> S" "0 \<le> v" "v < S"
  shows "inCyclicWindow v s l S \<longleftrightarrow> (v - s) mod S < l"
proof
  assume "inCyclicWindow v s l S"
  then obtain k where k: "0 \<le> k" "k < l" "v = (s + k) mod S"
    by (auto simp: inCyclicWindow_def)
  have "(v - s) mod S = ((s + k) mod S - s) mod S" using k by simp
  also have "\<dots> = k mod S" by (simp add: mod_diff_left_eq)
  also have "\<dots> \<le> k" using k(1) assms(1) by (simp add: zmod_le_nonneg_dividend)
  finally show "(v - s) mod S < l" using k(2) by simp
next
  assume a: "(v - s) mod S < l"
  define k where "k = (v - s) mod S"
  have k0: "0 \<le> k" using assms(1) by (simp add: k_def)
  have "(s + k) mod S = (s + (v - s)) mod S" unfolding k_def by (simp add: mod_add_right_eq)
  also have "\<dots> = v" using assms by simp
  finally have "v = (s + k) mod S" by simp
  then show "inCyclicWindow v s l S" using k0 a unfolding inCyclicWindow_def k_def[symmetric]
    by (auto intro!: image_eqI[where x=k])
qed

lemma isIn_iff:
  assumes "1 \<le> S" "0 \<le> v" "v < S" "0 \<le> s" "s < S"
  shows "isInCyclicInterval v s l S \<longleftrightarrow> (v - s) mod S < l"
proof -
  have "0 \<le> v - s + S" using assms by simp
  then have "jsRem (v - s + S) S = (v - s + S) mod S" using assms(1) by (simp add: jsRem_def)
  also have "\<dots> = (v - s) mod S" by simp
  finally show ?thesis using assms(1) by (simp add: isInCyclicInterval_def)
qed

lemma isIn_window:
  assumes "1 \<le> S" "0 \<le> s" "s < S" "\<forall>v\<in>set xs. 0 \<le> v \<and> v < S"
  shows "list_all (\<lambda>v. isInCyclicInterval v s l S) xs \<longleftrightarrow> windowHoldsAll xs s l S"
  using assms by (auto simp: windowHoldsAll_def list_all_iff isIn_iff inWin_iff)

lemma window_mod:
  assumes "1 \<le> S" "\<forall>v\<in>set xs. 0 \<le> v \<and> v < S"
  shows "windowHoldsAll xs (s mod S) l S \<longleftrightarrow> windowHoldsAll xs s l S"
  using assms by (auto simp: windowHoldsAll_def list_all_iff inWin_iff mod_diff_right_eq)

lemma uniqueSorted_props:
  "set (uniqueSorted xs) = set xs" "distinct (uniqueSorted xs)"
  by (simp_all add: uniqueSorted_def set_setAddAll distinct_setAddAll)

lemma startLoop_none:
  assumes "\<forall>s'. s \<le> s' \<and> s' < S \<longrightarrow> \<not> list_all (\<lambda>v. isInCyclicInterval v s' l S) uniq"
  shows "startLoop uniq S l s (bs, bl) = (bs, bl)"
  using assms
proof (induction uniq S l s "(bs, bl)" rule: startLoop.induct)
  case (1 uniq S l s)
  show ?case
  proof (cases "s < S")
    case True
    then have n: "\<not> list_all (\<lambda>v. isInCyclicInterval v s l S) uniq" using 1(2) by auto
    have "startLoop uniq S l (s + 1) (bs, bl) = (bs, bl)"
      using 1(1)[OF True n] 1(2) by auto
    then show ?thesis using True n by (subst startLoop.simps) simp
  next
    case False
    then show ?thesis by (subst startLoop.simps) simp
  qed
qed

lemma startLoop_first:
  assumes "s \<le> s0" "s0 < S" "list_all (\<lambda>v. isInCyclicInterval v s0 l S) uniq"
    "\<forall>s'. s \<le> s' \<and> s' < s0 \<longrightarrow> \<not> list_all (\<lambda>v. isInCyclicInterval v s' l S) uniq"
  shows "startLoop uniq S l s (bs, bl) = (if l < bl then (s0, l) else (bs, bl))"
  using assms
proof (induction uniq S l s "(bs, bl)" rule: startLoop.induct)
  case (1 uniq S l s)
  have lt: "s < S" using 1(2,3) by simp
  show ?case
  proof (cases "s = s0")
    case True
    then show ?thesis using lt 1(4) by (subst startLoop.simps) simp
  next
    case False
    then have n: "\<not> list_all (\<lambda>v. isInCyclicInterval v s l S) uniq" using 1(2,5) by auto
    have "startLoop uniq S l (s + 1) (bs, bl) = (if l < bl then (s0, l) else (bs, bl))"
      using 1(1)[OF lt n] 1(2-5) False by auto
    then show ?thesis using lt n by (subst startLoop.simps) simp
  qed
qed

lemma lenLoop_first:
  assumes "l \<le> l0" "l0 \<le> S" "0 \<le> s0" "s0 < S"
    "list_all (\<lambda>v. isInCyclicInterval v s0 l0 S) uniq"
    "\<forall>s'. 0 \<le> s' \<and> s' < s0 \<longrightarrow> \<not> list_all (\<lambda>v. isInCyclicInterval v s' l0 S) uniq"
    "\<forall>l' s'. l \<le> l' \<and> l' < l0 \<and> 0 \<le> s' \<and> s' < S \<longrightarrow>
        \<not> list_all (\<lambda>v. isInCyclicInterval v s' l' S) uniq"
  shows "lenLoop uniq S l (bs, S + 1) = (s0, l0)"
  using assms
proof (induction uniq S l "(bs, S + 1)" rule: lenLoop.induct)
  case (1 uniq S l)
  have le: "l \<le> S" using 1(2,3) by simp
  show ?case
  proof (cases "l = l0")
    case True
    have "startLoop uniq S l 0 (bs, S + 1) = (if l < S + 1 then (s0, l) else (bs, S + 1))"
      using 1(3-7) True by (intro startLoop_first) auto
    then have "startLoop uniq S l 0 (bs, S + 1) = (s0, l0)" using le True by simp
    then show ?thesis using le 1(3) by (subst lenLoop.simps) simp
  next
    case False
    have st: "startLoop uniq S l 0 (bs, S + 1) = (bs, S + 1)"
      using 1(2,8) False by (intro startLoop_none) auto
    have "lenLoop uniq S (l + 1) (bs, S + 1) = (s0, l0)"
      by (rule 1(1)[OF le st[symmetric]]) (use 1(2-8) False in auto)
    then show ?thesis using le st by (subst lenLoop.simps) simp
  qed
qed

lemma window_empty: "l \<le> 0 \<Longrightarrow> xs \<noteq> [] \<Longrightarrow> \<not> windowHoldsAll xs s l S"
  by (cases xs) (auto simp: windowHoldsAll_def inCyclicWindow_def)

lemma window_cong: "set xs = set ys \<Longrightarrow> windowHoldsAll xs s l S = windowHoldsAll ys s l S"
  by (simp add: windowHoldsAll_def list_all_iff)

lemma window_full:
  assumes "1 \<le> S" "\<forall>v\<in>set xs. 0 \<le> v \<and> v < S"
  shows "windowHoldsAll xs 0 S S"
  using assms by (auto simp: windowHoldsAll_def list_all_iff inWin_iff)

lemma window_card:
  assumes "windowHoldsAll xs s l S" "0 \<le> l"
  shows "card (set xs) \<le> nat l"
proof -
  have "set xs \<subseteq> (\<lambda>k. (s + k) mod S) ` {0..l - 1}"
    using assms(1) by (auto simp: windowHoldsAll_def list_all_iff inCyclicWindow_def)
  then have "card (set xs) \<le> card ((\<lambda>k. (s + k) mod S) ` {0..l - 1})"
    by (intro card_mono) auto
  also have "\<dots> \<le> card {0..l - 1}" by (rule card_image_le) simp
  also have "\<dots> = nat l" using assms(2) by simp
  finally show ?thesis .
qed

lemma least_int:
  assumes "P (k::int)" "\<forall>x. P x \<longrightarrow> 0 \<le> x"
  obtains x where "P x" "\<forall>y. P y \<longrightarrow> x \<le> y"
proof -
  obtain x where x: "P x" "\<forall>y. P y \<longrightarrow> nat x \<le> nat y"
    using ex_has_least_nat[of P k nat] assms(1) by auto
  have "\<forall>y. P y \<longrightarrow> x \<le> y" using x(2) assms(2) by (metis nat_le_eq_zle x(1) nat_le_iff)
  then show ?thesis using that x(1) by blast
qed

text \<open>
  Claim C7. For a cyclic size \<open>S \<ge> 1\<close> and a non-empty list of indices drawn from
  \<open>[0, S)\<close>, the interval \<open>(start, len)\<close> returned by \<open>minimalCyclicInterval\<close> is such that
  every index lies in the cyclic window \<open>[start, start + len)\<close> modulo \<open>S\<close>; no shorter
  length has a window, at any start, that holds every index; no smaller start in
  \<open>[0, S)\<close> has a window of that length holding every index; the start is in \<open>[0, S)\<close> and
  the length in \<open>[1, S]\<close>; and when all \<open>S\<close> indices occur the result is \<open>(0, S)\<close>.
\<close>

theorem minimalCyclicInterval_correct:
  assumes S: "1 \<le> S" and ne: "indices \<noteq> []" and rng: "\<forall>v\<in>set indices. 0 \<le> v \<and> v < S"
  shows "windowHoldsAll indices (start (minimalCyclicInterval indices S))
           (len (minimalCyclicInterval indices S)) S \<and>
         (\<forall>l' s. l' < len (minimalCyclicInterval indices S) \<longrightarrow> \<not> windowHoldsAll indices s l' S) \<and>
         (\<forall>s. 0 \<le> s \<and> s < start (minimalCyclicInterval indices S) \<longrightarrow>
              \<not> windowHoldsAll indices s (len (minimalCyclicInterval indices S)) S) \<and>
         0 \<le> start (minimalCyclicInterval indices S) \<and>
         start (minimalCyclicInterval indices S) < S \<and>
         1 \<le> len (minimalCyclicInterval indices S) \<and>
         len (minimalCyclicInterval indices S) \<le> S \<and>
         (set indices = {0..<S} \<longrightarrow>
            minimalCyclicInterval indices S = \<lparr>start = 0, len = S\<rparr>)"
proof -
  define uniq where "uniq = uniqueSorted indices"
  have su: "set uniq = set indices" and du: "distinct uniq"
    by (simp_all add: uniq_def uniqueSorted_props)
  have rngu: "\<forall>v\<in>set uniq. 0 \<le> v \<and> v < S" using rng su by simp
  have card: "card (set indices) = length uniq" using su du distinct_card by metis
  have full: "windowHoldsAll indices 0 S S" by (rule window_full[OF S rng])
  show ?thesis
  proof (cases "int (length uniq) = S")
    case True
    have r: "minimalCyclicInterval indices S = \<lparr>start = 0, len = S\<rparr>"
      using ne True by (simp add: minimalCyclicInterval_def uniq_def[symmetric])
    have small: "\<not> windowHoldsAll indices s l' S" if "l' < S" for l' s
    proof
      assume w: "windowHoldsAll indices s l' S"
      then have "0 < l'" using window_empty[OF _ ne, of l' s S] by force
      then have "card (set indices) \<le> nat l'" using window_card[OF w] by simp
      then show False using card True that \<open>0 < l'\<close> by linarith
    qed
    show ?thesis unfolding r using full small S by auto
  next
    case False
    define P where "P l \<longleftrightarrow> 1 \<le> l \<and> (\<exists>s. 0 \<le> s \<and> s < S \<and> windowHoldsAll indices s l S)" for l
    have "P S" using full S by (auto simp: P_def)
    then obtain l0 where l0: "P l0" "\<forall>y. P y \<longrightarrow> l0 \<le> y"
      by (rule least_int) (auto simp: P_def)
    have l0S: "l0 \<le> S" "1 \<le> l0" using l0 \<open>P S\<close> by (auto simp: P_def)
    define Q where "Q s \<longleftrightarrow> 0 \<le> s \<and> s < S \<and> windowHoldsAll indices s l0 S" for s
    obtain s1 where "Q s1" using l0(1) by (auto simp: P_def Q_def)
    then obtain s0 where s0: "Q s0" "\<forall>y. Q y \<longrightarrow> s0 \<le> y"
      by (rule least_int) (auto simp: Q_def)
    have conv: "list_all (\<lambda>v. isInCyclicInterval v s l S) uniq \<longleftrightarrow> windowHoldsAll indices s l S"
      if "0 \<le> s" "s < S" for s l
      using isIn_window[OF S that rngu] window_cong[OF su] by simp
    have loop: "lenLoop uniq S 1 (0, S + 1) = (s0, l0)"
    proof (rule lenLoop_first)
      show "1 \<le> l0" "l0 \<le> S" using l0S by auto
      show "0 \<le> s0" "s0 < S" using s0(1) by (auto simp: Q_def)
      show "list_all (\<lambda>v. isInCyclicInterval v s0 l0 S) uniq"
        using s0(1) conv by (auto simp: Q_def)
      show "\<forall>s'. 0 \<le> s' \<and> s' < s0 \<longrightarrow> \<not> list_all (\<lambda>v. isInCyclicInterval v s' l0 S) uniq"
      proof (intro allI impI notI)
        fix s' assume a: "0 \<le> s' \<and> s' < s0" "list_all (\<lambda>v. isInCyclicInterval v s' l0 S) uniq"
        have "s' < S" using a(1) s0(1) by (auto simp: Q_def)
        then have "Q s'" using a conv by (auto simp: Q_def)
        then show False using s0(2) a(1) by auto
      qed
      show "\<forall>l' s'. 1 \<le> l' \<and> l' < l0 \<and> 0 \<le> s' \<and> s' < S \<longrightarrow>
              \<not> list_all (\<lambda>v. isInCyclicInterval v s' l' S) uniq"
      proof (intro allI impI notI)
        fix l' s'
        assume a: "1 \<le> l' \<and> l' < l0 \<and> 0 \<le> s' \<and> s' < S"
          "list_all (\<lambda>v. isInCyclicInterval v s' l' S) uniq"
        then have "P l'" using conv by (auto simp: P_def)
        then show False using l0(2) a(1) by auto
      qed
    qed
    have r: "minimalCyclicInterval indices S = \<lparr>start = s0, len = l0\<rparr>"
      using ne False loop l0S by (simp add: minimalCyclicInterval_def uniq_def[symmetric])
    have small: "\<not> windowHoldsAll indices s l' S" if "l' < l0" for l' s
    proof
      assume w: "windowHoldsAll indices s l' S"
      then have "0 < l'" using window_empty[OF _ ne, of l' s S] by force
      moreover have "windowHoldsAll indices (s mod S) l' S"
        using w window_mod[OF S rng] by simp
      moreover have "0 \<le> s mod S" "s mod S < S" using S by simp_all
      ultimately have "P l'" unfolding P_def by force
      then show False using l0(2) that by auto
    qed
    have early: "\<not> windowHoldsAll indices s l0 S" if "0 \<le> s \<and> s < s0" for s
    proof
      assume w: "windowHoldsAll indices s l0 S"
      have "s < S" using that s0(1) by (auto simp: Q_def)
      then have "Q s" using w that by (auto simp: Q_def)
      then show False using s0(2) that by auto
    qed
    have notall: "set indices \<noteq> {0..<S}"
    proof
      assume "set indices = {0..<S}"
      then have "card (set indices) = nat S" by simp
      then show False using card False S by simp
    qed
    show ?thesis unfolding r using s0(1) l0S small early notall by (auto simp: Q_def)
  qed
qed

theorem minimalCyclicInterval_correct_witness:
  "(1::int) \<le> 4 \<and> [0, 3::int] \<noteq> [] \<and>
   windowHoldsAll [0, 3] (start (minimalCyclicInterval [0, 3] 4))
     (len (minimalCyclicInterval [0, 3] 4)) 4 \<and>
   \<not> windowHoldsAll [0, 3] 3 (len (minimalCyclicInterval [0, 3] 4) - 1) 4 \<and>
   1 \<le> len (minimalCyclicInterval [0, 3] 4) \<and>
   start (minimalCyclicInterval [0, 3] 4) < 4"
proof -
  have h1: "(1::int) \<le> 4" by simp
  have h2: "[0, 3::int] \<noteq> []" by simp
  have h3: "\<forall>v\<in>set [0, 3::int]. 0 \<le> v \<and> v < 4" by simp
  note t = minimalCyclicInterval_correct[OF h1 h2 h3]
  have c1: "windowHoldsAll [0, 3] (start (minimalCyclicInterval [0, 3] 4))
     (len (minimalCyclicInterval [0, 3] 4)) 4" using t by blast
  have c2: "\<forall>l' s. l' < len (minimalCyclicInterval [0, 3] 4) \<longrightarrow> \<not> windowHoldsAll [0, 3] s l' 4"
    using t by blast
  have c3: "\<not> windowHoldsAll [0, 3] 3 (len (minimalCyclicInterval [0, 3] 4) - 1) 4"
    using c2 by simp
  have c4: "1 \<le> len (minimalCyclicInterval [0, 3] 4)" using t by blast
  have c5: "start (minimalCyclicInterval [0, 3] 4) < 4" using t by blast
  show ?thesis using h1 h2 c1 c3 c4 c5 by blast
qed

section \<open>Order of the group overlays\<close>

lemma rectCompare_le: "rectCompare a b \<le> 0 \<longleftrightarrow> rectBefore a b"
  by (auto simp: rectCompare_def rectBefore_def)

lemma rectBefore_total: "\<not> rectBefore a b \<Longrightarrow> rectBefore b a"
  by (auto simp: rectBefore_def)

lemma rectBefore_trans: "rectBefore a b \<Longrightarrow> rectBefore b c \<Longrightarrow> rectBefore a c"
  by (auto simp: rectBefore_def)

lemma set_insertBy: "set (insertBy cmp a xs) = insert a (set xs)"
  by (induction xs) auto

lemma sorted_insertBy:
  "sorted_wrt rectBefore xs \<Longrightarrow> sorted_wrt rectBefore (insertBy rectCompare a xs)"
proof (induction xs)
  case Nil
  show ?case by simp
next
  case (Cons b bs)
  show ?case
  proof (cases "rectCompare a b \<le> 0")
    case True
    then have ab: "rectBefore a b" by (simp add: rectCompare_le)
    then have "\<forall>c\<in>set bs. rectBefore a c" using Cons.prems rectBefore_trans by auto
    then show ?thesis using True ab Cons.prems by simp
  next
    case False
    then have ba: "rectBefore b a" using rectBefore_total by (simp add: rectCompare_le)
    show ?thesis using False ba Cons by (auto simp: set_insertBy)
  qed
qed

lemma sorted_sortBy: "sorted_wrt rectBefore (sortBy rectCompare xs)"
  unfolding sortBy_def by (induction xs) (simp_all add: sorted_insertBy)

text \<open>
  Claim C8. For any variable count, any \<open>groups\<close> input and any map index, the list of
  rectangles returned by \<open>buildGroupOverlays\<close> is in descending order of area, and
  rectangles of equal area are in ascending order of their originating group index.
\<close>

theorem buildGroupOverlays_sorted:
  "sorted_wrt rectBefore (buildGroupOverlays variables groups mapIndex)"
  by (auto simp: buildGroupOverlays_def Let_def sorted_sortBy split: option.splits)

theorem buildGroupOverlays_sorted_witness:
  "map (\<lambda>r. (area r, groupId r))
       (buildGroupOverlays 4 (Some [[1], [0, 2, 8, 10], [5, 7, 13, 15], [3], [0, 1, 2, 3]]) (Some 0))
     = [(4, 1), (4, 1), (4, 1), (4, 1), (4, 2), (4, 4), (1, 0), (1, 3)] \<and>
   sorted_wrt rectBefore
       (buildGroupOverlays 4 (Some [[1], [0, 2, 8, 10], [5, 7, 13, 15], [3], [0, 1, 2, 3]]) (Some 0))"
proof -
  have "map (\<lambda>r. (area r, groupId r))
       (buildGroupOverlays 4 (Some [[1], [0, 2, 8, 10], [5, 7, 13, 15], [3], [0, 1, 2, 3]]) (Some 0))
     = [(4, 1), (4, 1), (4, 1), (4, 1), (4, 2), (4, 4), (1, 0), (1, 3)]"
    by code_simp
  then show ?thesis
    using buildGroupOverlays_sorted[of 4 "Some [[1], [0, 2, 8, 10], [5, 7, 13, 15], [3], [0, 1, 2, 3]]" "Some 0"]
    by simp
qed

section \<open>The constant endpoints of the POS form\<close>

lemma zerosOf_set: "set (zerosOf V ms dcs) = {0..<2 ^ V} - set ms - set dcs"
  by (auto simp: zerosOf_def)

lemma zerosOf_distinct: "distinct (zerosOf V ms dcs)"
  by (simp add: zerosOf_def)

lemma zerosOf_sorted: "sorted (zerosOf V ms dcs)"
  by (simp add: zerosOf_def)

lemma allDashes_replicate: "0 < V \<Longrightarrow> allDashes (replicate V (CHR ''-''))"
  by (cases V) (simp_all add: allDashes_def list_all_iff)

lemma formatPos_allDashes: "list_ex allDashes ts \<Longrightarrow> formatPosFromTerms ts V = ''0''"
  by (simp add: formatPosFromTerms_def)

lemma zeros_fill_length:
  assumes "distinct dcs" "set (zerosOf V ms dcs) \<union> set dcs = {0..<2 ^ V}"
  shows "length (zerosOf V ms dcs) + length dcs = 2 ^ V"
proof -
  have disj: "set (zerosOf V ms dcs) \<inter> set dcs = {}" by (auto simp: zerosOf_set)
  have "length (zerosOf V ms dcs) + length dcs = card (set (zerosOf V ms dcs)) + card (set dcs)"
    using assms(1) zerosOf_distinct by (simp add: distinct_card)
  also have "\<dots> = card (set (zerosOf V ms dcs) \<union> set dcs)"
    using disj by (simp add: card_Un_disjoint)
  also have "\<dots> = 2 ^ V" using assms(2) by simp
  finally show ?thesis .
qed

text \<open>
  Claim C5. For a valid input in POS form: when the complement (the positions neither true
  nor don't-care) is empty, \<open>solveCustom\<close> returns the expression \<open>1\<close>; when the complement
  is not empty and together with the don't-cares fills the whole position space, \<open>runQM\<close>
  on the complement returns the all-dash cube and \<open>solveCustom\<close> returns the expression
  \<open>0\<close>; and whenever the terms \<open>runQM\<close> returns for the complement hold the all-dash cube,
  \<open>solveCustom\<close> returns the expression \<open>0\<close>.
\<close>

theorem solveCustom_pos_endpoints:
  assumes "validInput V ms dcs"
  shows "(zerosOf V ms dcs = [] \<longrightarrow>
            (\<exists>r. solveCustom V ms dcs False = Inr r \<and> expression r = ''1'')) \<and>
         (zerosOf V ms dcs \<noteq> [] \<and> set (zerosOf V ms dcs) \<union> set dcs = {0..<2 ^ V} \<longrightarrow>
            runQM V (zerosOf V ms dcs) dcs =
              Inr \<lparr>qm_expression = ''1'', qm_groups = [zerosOf V ms dcs @ dcs],
                   qm_terms = [replicate V (CHR ''-'')]\<rparr> \<and>
            (\<exists>r. solveCustom V ms dcs False = Inr r \<and> expression r = ''0'')) \<and>
         (\<forall>sol. zerosOf V ms dcs \<noteq> [] \<and> runQM V (zerosOf V ms dcs) dcs = Inr sol \<and>
                 replicate V (CHR ''-'') \<in> set (qm_terms sol) \<longrightarrow>
            (\<exists>r. solveCustom V ms dcs False = Inr r \<and> expression r = ''0''))"
proof (intro conjI impI allI)
  assume "zerosOf V ms dcs = []"
  then show "\<exists>r. solveCustom V ms dcs False = Inr r \<and> expression r = ''1''"
    by (simp add: solveCustom_def)
next
  have V: "0 < V" and d: "distinct dcs" using assms by (auto simp: validInput_def)
  {
    assume a: "zerosOf V ms dcs \<noteq> [] \<and> set (zerosOf V ms dcs) \<union> set dcs = {0..<2 ^ V}"
    have len: "length (zerosOf V ms dcs) + length dcs = 2 ^ V"
      using zeros_fill_length[OF d] a by simp
    show q: "runQM V (zerosOf V ms dcs) dcs =
              Inr \<lparr>qm_expression = ''1'', qm_groups = [zerosOf V ms dcs @ dcs],
                   qm_terms = [replicate V (CHR ''-'')]\<rparr>"
      using a len by (simp add: runQM_def)
    show "\<exists>r. solveCustom V ms dcs False = Inr r \<and> expression r = ''0''"
      using a q allDashes_replicate[OF V] by (simp add: solveCustom_def formatPos_allDashes)
  }
  {
    fix sol
    assume a: "zerosOf V ms dcs \<noteq> [] \<and> runQM V (zerosOf V ms dcs) dcs = Inr sol \<and>
                 replicate V (CHR ''-'') \<in> set (qm_terms sol)"
    then have "list_ex allDashes (qm_terms sol)"
      using allDashes_replicate[OF V] by (auto simp: list_ex_iff)
    then show "\<exists>r. solveCustom V ms dcs False = Inr r \<and> expression r = ''0''"
      using a by (simp add: solveCustom_def formatPos_allDashes)
  }
qed

theorem solveCustom_pos_endpoints_witness:
  "validInput 2 [0, 1, 2] [3] \<and> validInput 2 [] [1] \<and>
   (\<exists>r. solveCustom 2 [0, 1, 2] [3] False = Inr r \<and> expression r = ''1'') \<and>
   (\<exists>r. solveCustom 2 [] [1] False = Inr r \<and> expression r = ''0'')"
proof -
  have v1: "validInput 2 [0, 1, 2] [3]" by (simp add: validInput_def)
  have v2: "validInput 2 [] [1]" by (simp add: validInput_def)
  have z1: "zerosOf 2 [0, 1, 2] [3] = []" by code_simp
  have z2: "zerosOf 2 [] [1] = [0, 2, 3]" by code_simp
  have z2': "zerosOf 2 [] [1] \<noteq> [] \<and> set (zerosOf 2 [] [1]) \<union> set [1] = {0..<2 ^ 2}"
    unfolding z2 by auto
  have c1: "\<exists>r. solveCustom 2 [0, 1, 2] [3] False = Inr r \<and> expression r = ''1''"
    using solveCustom_pos_endpoints[OF v1] z1 by blast
  have c2: "\<exists>r. solveCustom 2 [] [1] False = Inr r \<and> expression r = ''0''"
    using solveCustom_pos_endpoints[OF v2] z2' by blast
  show ?thesis using v1 v2 c1 c2 by blast
qed

section \<open>Invariants of the Quine-McCluskey rounds and of the covering loops\<close>

lemma diffIndexFrom_spec:
  assumes "length t1 = length t2" "i \<le> length t1"
    and "diff = - 1 \<or> (0 \<le> diff \<and> nat diff < i \<and> t1 ! nat diff \<noteq> t2 ! nat diff)"
    and "\<forall>j<i. int j \<noteq> diff \<longrightarrow> t1 ! j = t2 ! j"
    and "diffIndexFrom t1 t2 i diff \<noteq> - 1"
  shows "0 \<le> diffIndexFrom t1 t2 i diff \<and> nat (diffIndexFrom t1 t2 i diff) < length t1 \<and>
         t1 ! nat (diffIndexFrom t1 t2 i diff) \<noteq> t2 ! nat (diffIndexFrom t1 t2 i diff) \<and>
         (\<forall>j<length t1. j \<noteq> nat (diffIndexFrom t1 t2 i diff) \<longrightarrow> t1 ! j = t2 ! j)"
  using assms
proof (induction t1 t2 i diff rule: diffIndexFrom.induct)
  case (1 t1 t2 i diff)
  show ?case
  proof (cases "i < length t1")
    case False
    then have il: "i = length t1" using 1(4) by simp
    have r: "diffIndexFrom t1 t2 i diff = diff" using False by (subst diffIndexFrom.simps) simp
    have d: "0 \<le> diff \<and> nat diff < i \<and> t1 ! nat diff \<noteq> t2 ! nat diff"
      using 1(5,7) r by auto
    show ?thesis unfolding r using d 1(6) il by auto
  next
    case True
    show ?thesis
    proof (cases "strAt t1 i \<noteq> strAt t2 i")
      case ne: True
      then have neq: "t1 ! i \<noteq> t2 ! i" using True 1(3) by (simp add: strAt_def)
      have dm: "diff = - 1"
      proof (rule ccontr)
        assume "diff \<noteq> - 1"
        then have "diffIndexFrom t1 t2 i diff = - 1" using True ne
          by (subst diffIndexFrom.simps) simp
        then show False using 1(7) by simp
      qed
      have r: "diffIndexFrom t1 t2 i diff = diffIndexFrom t1 t2 (i + 1) (int i)"
        using True ne dm by (subst diffIndexFrom.simps) simp
      have "0 \<le> diffIndexFrom t1 t2 (i + 1) (int i) \<and>
            nat (diffIndexFrom t1 t2 (i + 1) (int i)) < length t1 \<and>
            t1 ! nat (diffIndexFrom t1 t2 (i + 1) (int i)) \<noteq> t2 ! nat (diffIndexFrom t1 t2 (i + 1) (int i)) \<and>
            (\<forall>j<length t1. j \<noteq> nat (diffIndexFrom t1 t2 (i + 1) (int i)) \<longrightarrow> t1 ! j = t2 ! j)"
      proof (rule 1(1)[OF True ne _ 1(3)])
        show "\<not> diff \<noteq> - 1" using dm by simp
        show "i + 1 \<le> length t1" using True by simp
        show "int i = - 1 \<or> 0 \<le> int i \<and> nat (int i) < i + 1 \<and> t1 ! nat (int i) \<noteq> t2 ! nat (int i)"
          using neq by simp
        show "\<forall>j<i + 1. int j \<noteq> int i \<longrightarrow> t1 ! j = t2 ! j" using 1(6) dm by (auto simp: less_Suc_eq)
        show "diffIndexFrom t1 t2 (i + 1) (int i) \<noteq> - 1" using 1(7) r by simp
      qed
      then show ?thesis unfolding r .
    next
      case eq: False
      then have eqi: "t1 ! i = t2 ! i" using True 1(3) by (simp add: strAt_def)
      have r: "diffIndexFrom t1 t2 i diff = diffIndexFrom t1 t2 (i + 1) diff"
        using True eq by (subst diffIndexFrom.simps) simp
      have "0 \<le> diffIndexFrom t1 t2 (i + 1) diff \<and>
            nat (diffIndexFrom t1 t2 (i + 1) diff) < length t1 \<and>
            t1 ! nat (diffIndexFrom t1 t2 (i + 1) diff) \<noteq> t2 ! nat (diffIndexFrom t1 t2 (i + 1) diff) \<and>
            (\<forall>j<length t1. j \<noteq> nat (diffIndexFrom t1 t2 (i + 1) diff) \<longrightarrow> t1 ! j = t2 ! j)"
      proof (rule 1(2)[OF True eq 1(3)])
        show "i + 1 \<le> length t1" using True by simp
        show "diff = - 1 \<or> 0 \<le> diff \<and> nat diff < i + 1 \<and> t1 ! nat diff \<noteq> t2 ! nat diff"
          using 1(5) by auto
        show "\<forall>j<i + 1. int j \<noteq> diff \<longrightarrow> t1 ! j = t2 ! j" using 1(6) eqi by (auto simp: less_Suc_eq)
        show "diffIndexFrom t1 t2 (i + 1) diff \<noteq> - 1" using 1(7) r by simp
      qed
      then show ?thesis unfolding r .
    qed
  qed
qed

lemma diffIndex_spec:
  assumes "length t1 = length t2" "diffIndex t1 t2 \<noteq> - 1"
  obtains d where "diffIndex t1 t2 = int d" "d < length t1" "t1 ! d \<noteq> t2 ! d"
    "\<forall>j<length t1. j \<noteq> d \<longrightarrow> t1 ! j = t2 ! j"
proof -
  have "0 \<le> diffIndex t1 t2 \<and> nat (diffIndex t1 t2) < length t1 \<and>
        t1 ! nat (diffIndex t1 t2) \<noteq> t2 ! nat (diffIndex t1 t2) \<and>
        (\<forall>j<length t1. j \<noteq> nat (diffIndex t1 t2) \<longrightarrow> t1 ! j = t2 ! j)"
    unfolding diffIndex_def
    by (rule diffIndexFrom_spec) (use assms in \<open>auto simp: diffIndex_def\<close>)
  then show ?thesis using that[of "nat (diffIndex t1 t2)"] by auto
qed

lemma bitsOf_props:
  assumes "m < 2 ^ V" "0 < V"
  shows "length (bitsOf V m) = V" "set (bitsOf V m) \<subseteq> {CHR ''0'', CHR ''1''}"
    "digitsVal 2 (bitsOf V m) = m"
  using bin_props[OF assms] by (simp_all add: bitsOf_def)

lemma bitsOf_nth:
  assumes "m < 2 ^ V" "0 < V" "i < V"
  shows "bitsOf V m ! i = CHR ''0'' \<or> bitsOf V m ! i = CHR ''1''"
proof -
  have "bitsOf V m ! i \<in> set (bitsOf V m)"
    using bitsOf_props(1)[OF assms(1,2)] assms(3) by (intro nth_mem) simp
  then show ?thesis using bitsOf_props(2)[OF assms(1,2)] by auto
qed

lemma bitsOf_inj:
  assumes "m < 2 ^ V" "n < 2 ^ V" "0 < V" "bitsOf V m = bitsOf V n"
  shows "m = n"
proof -
  have "m = digitsVal 2 (bitsOf V m)" by (rule bitsOf_props(3)[OF assms(1,3), symmetric])
  also have "\<dots> = digitsVal 2 (bitsOf V n)" by (rule arg_cong[OF assms(4)])
  also have "\<dots> = n" by (rule bitsOf_props(3)[OF assms(2,3)])
  finally show ?thesis .
qed

lemma cubeMatches_nth:
  "cubeMatches t s \<longleftrightarrow> length t = length s \<and> (\<forall>i<length t. t ! i = CHR ''-'' \<or> t ! i = s ! i)"
  by (simp add: cubeMatches_def list_all2_conv_all_nth)

lemma isCube_nth: "isCube t \<Longrightarrow> i < length t \<Longrightarrow> t ! i = CHR ''0'' \<or> t ! i = CHR ''1'' \<or> t ! i = CHR ''-''"
  by (auto simp: isCube_def list_all_length)

lemma countDashes_split:
  assumes "d < length t"
  shows "countDashes t = countDashes (take d t) + (if t ! d = CHR ''-'' then 1 else 0)
           + countDashes (drop (Suc d) t)"
proof -
  have "t = take d t @ t ! d # drop (Suc d) t" using assms by (rule id_take_nth_drop)
  then have "countDashes t = countDashes (take d t @ t ! d # drop (Suc d) t)" by simp
  then show ?thesis unfolding countDashes_def by simp
qed

lemma agree_take_drop:
  assumes "length t1 = length t2" "\<forall>j<length t1. j \<noteq> d \<longrightarrow> t1 ! j = t2 ! j"
  shows "take d t1 = take d t2" "drop (Suc d) t1 = drop (Suc d) t2"
  using assms by (auto intro!: nth_equalityI)

lemma newTerm_update:
  assumes "d < length t"
  shows "take d t @ ''-'' @ drop (d + 1) t = t[d := CHR ''-'']"
  using assms by (simp add: upd_conv_take_nth_drop)

lemma countDashes_update:
  assumes "d < length t" "t ! d \<noteq> CHR ''-''"
  shows "countDashes (t[d := CHR ''-'']) = Suc (countDashes t)"
proof -
  have "countDashes (t[d := CHR ''-'']) = countDashes (take d t @ CHR ''-'' # drop (Suc d) t)"
    using assms(1) by (simp add: upd_conv_take_nth_drop)
  also have "\<dots> = countDashes (take d t) + 1 + countDashes (drop (Suc d) t)"
    by (simp add: countDashes_def)
  finally show ?thesis using countDashes_split[OF assms(1)] assms(2) by simp
qed

lemma differ_bits:
  assumes "isCube t1" "isCube t2" "length t1 = length t2" "countDashes t1 = countDashes t2"
    "d < length t1" "t1 ! d \<noteq> t2 ! d" "\<forall>j<length t1. j \<noteq> d \<longrightarrow> t1 ! j = t2 ! j"
  shows "t1 ! d \<noteq> CHR ''-''" "t2 ! d \<noteq> CHR ''-''"
proof -
  note td = agree_take_drop[OF assms(3,7)]
  have "(if t1 ! d = CHR ''-'' then 1 else 0) = (if t2 ! d = CHR ''-'' then 1 else (0::nat))"
    using countDashes_split[OF assms(5)] countDashes_split[of d t2] assms(3,4,5) td by simp
  then have "t1 ! d = CHR ''-'' \<longleftrightarrow> t2 ! d = CHR ''-''" by (auto split: if_splits)
  then show "t1 ! d \<noteq> CHR ''-''" "t2 ! d \<noteq> CHR ''-''" using assms(6) by auto
qed

lemma holds_update:
  assumes "isCube t1" "isCube t2" "length t1 = V" "length t2 = V"
    "d < V" "t1 ! d \<noteq> t2 ! d" "t1 ! d \<noteq> CHR ''-''" "t2 ! d \<noteq> CHR ''-''"
    "\<forall>j<V. j \<noteq> d \<longrightarrow> t1 ! j = t2 ! j" "m < 2 ^ V" "0 < V"
  shows "holds V (t1[d := CHR ''-'']) m \<longleftrightarrow> holds V t1 m \<or> holds V t2 m"
    and "\<not> (holds V t1 m \<and> holds V t2 m)"
proof -
  define s where "s = bitsOf V m"
  have ls: "length s = V" using bitsOf_props(1)[OF assms(10,11)] by (simp add: s_def)
  have sd: "s ! d = CHR ''0'' \<or> s ! d = CHR ''1''"
    using bitsOf_nth[OF assms(10,11,5)] by (simp add: s_def)
  have t1d: "t1 ! d = CHR ''0'' \<or> t1 ! d = CHR ''1''"
    using isCube_nth[OF assms(1), of d] assms(3,5,7) by auto
  have t2d: "t2 ! d = CHR ''0'' \<or> t2 ! d = CHR ''1''"
    using isCube_nth[OF assms(2), of d] assms(4,5,8) by auto
  have sd': "s ! d = t1 ! d \<or> s ! d = t2 ! d" using sd t1d t2d assms(6) by auto
  have m1: "holds V t1 m \<longleftrightarrow> (\<forall>i<V. t1 ! i = CHR ''-'' \<or> t1 ! i = s ! i)"
    using assms(3) ls by (auto simp: holds_def cubeMatches_nth s_def[symmetric])
  have m2: "holds V t2 m \<longleftrightarrow> (\<forall>i<V. t2 ! i = CHR ''-'' \<or> t2 ! i = s ! i)"
    using assms(4) ls by (auto simp: holds_def cubeMatches_nth s_def[symmetric])
  have mu: "holds V (t1[d := CHR ''-'']) m \<longleftrightarrow>
            (\<forall>i<V. i \<noteq> d \<longrightarrow> t1 ! i = CHR ''-'' \<or> t1 ! i = s ! i)"
    using assms(3,5) ls by (auto simp: holds_def cubeMatches_nth s_def[symmetric] nth_list_update)
  show "holds V (t1[d := CHR ''-'']) m \<longleftrightarrow> holds V t1 m \<or> holds V t2 m"
  proof
    assume h: "holds V (t1[d := CHR ''-'']) m"
    show "holds V t1 m \<or> holds V t2 m"
    proof (cases "s ! d = t1 ! d")
      case True
      then have "holds V t1 m" unfolding m1 using h[unfolded mu] by auto
      then show ?thesis ..
    next
      case False
      then have e: "s ! d = t2 ! d" using sd' by simp
      have "holds V t2 m" unfolding m2
      proof (intro allI impI)
        fix i assume "i < V"
        show "t2 ! i = CHR ''-'' \<or> t2 ! i = s ! i"
        proof (cases "i = d")
          case True then show ?thesis using e by simp
        next
          case False
          then show ?thesis using h[unfolded mu] assms(9) \<open>i < V\<close> by auto
        qed
      qed
      then show ?thesis ..
    qed
  next
    assume "holds V t1 m \<or> holds V t2 m"
    then show "holds V (t1[d := CHR ''-'']) m" unfolding mu m1 m2 using assms(9) by auto
  qed
  show "\<not> (holds V t1 m \<and> holds V t2 m)"
  proof
    assume a: "holds V t1 m \<and> holds V t2 m"
    have "t1 ! d = s ! d" using a[unfolded m1 m2] assms(5,7) by auto
    moreover have "t2 ! d = s ! d" using a[unfolded m1 m2] assms(5,8) by auto
    ultimately show False using assms(6) by simp
  qed
qed

lemma cubeInv_same_term:
  assumes "cubeInv S V p" "cubeInv S V q" "term_str p = term_str q"
  shows "minterms p = minterms q"
proof -
  have "set (minterms p) = set (minterms q)" using assms by (simp add: cubeInv_def)
  moreover have "sorted (minterms p)" "distinct (minterms p)" "sorted (minterms q)" "distinct (minterms q)"
    using assms(1,2) by (auto simp: cubeInv_def strict_sorted_iff)
  ultimately show ?thesis by (rule sorted_distinct_set_unique[rotated 4])
qed

lemma combine_cubeInv:
  assumes V: "0 < V" and p1: "cubeInv S V p1" and p2: "cubeInv S V p2"
    and dash: "countDashes (term_str p1) = countDashes (term_str p2)"
    and diff: "diffIndex (term_str p1) (term_str p2) \<noteq> - 1"
  defines "newTerm \<equiv> take (nat (diffIndex (term_str p1) (term_str p2))) (term_str p1) @ ''-'' @
                      drop (nat (diffIndex (term_str p1) (term_str p2)) + 1) (term_str p1)"
  shows "cubeInv S V \<lparr>term_str = newTerm, minterms = sort (minterms p1 @ minterms p2), isPrime = b\<rparr>"
    and "countDashes newTerm = Suc (countDashes (term_str p1))"
proof -
  define t1 where "t1 = term_str p1"
  define t2 where "t2 = term_str p2"
  have c1: "isCube t1" and c2: "isCube t2" and l1: "length t1 = V" and l2: "length t2 = V"
    using p1 p2 by (auto simp: cubeInv_def t1_def t2_def)
  have len: "length t1 = length t2" using l1 l2 by simp
  obtain d where d: "diffIndex t1 t2 = int d" "d < length t1" "t1 ! d \<noteq> t2 ! d"
    "\<forall>j<length t1. j \<noteq> d \<longrightarrow> t1 ! j = t2 ! j"
    using diffIndex_spec[OF len] diff unfolding t1_def t2_def by blast
  have nd: "t1 ! d \<noteq> CHR ''-''" "t2 ! d \<noteq> CHR ''-''"
    using differ_bits[OF c1 c2 len _ d(2,3,4)] dash by (auto simp: t1_def t2_def)
  have nt: "newTerm = t1[d := CHR ''-'']"
    unfolding newTerm_def t1_def[symmetric] t2_def[symmetric] d(1)
    using newTerm_update[OF d(2)] by simp
  have dV: "d < V" using d(2) l1 by simp
  have agree: "\<forall>j<V. j \<noteq> d \<longrightarrow> t1 ! j = t2 ! j" using d(4) l1 by simp
  have hu: "holds V (t1[d := CHR ''-'']) m \<longleftrightarrow> holds V t1 m \<or> holds V t2 m"
    and hd: "\<not> (holds V t1 m \<and> holds V t2 m)" if "m < 2 ^ V" for m
    using holds_update[OF c1 c2 l1 l2 dV d(3) nd agree that V] by auto
  have s1: "set (minterms p1) = {m. m < 2 ^ V \<and> holds V t1 m}"
    and s2: "set (minterms p2) = {m. m < 2 ^ V \<and> holds V t2 m}"
    using p1 p2 by (auto simp: cubeInv_def t1_def t2_def)
  have disj: "set (minterms p1) \<inter> set (minterms p2) = {}" unfolding s1 s2 using hd by auto
  have dist: "distinct (minterms p1 @ minterms p2)"
    using p1 p2 disj by (auto simp: cubeInv_def strict_sorted_iff)
  have cube: "isCube newTerm" unfolding nt using c1
    by (auto simp: isCube_def list_all_iff dest!: set_update_subset_insert[THEN subsetD])
  have cnt: "countDashes newTerm = Suc (countDashes t1)"
    unfolding nt by (rule countDashes_update[OF d(2) nd(1)])
  have setn: "set (sort (minterms p1 @ minterms p2)) = {m. m < 2 ^ V \<and> holds V newTerm m}"
    unfolding nt using s1 s2 hu by auto
  have lenn: "length (sort (minterms p1 @ minterms p2)) = 2 ^ countDashes newTerm"
    using p1 p2 dash cnt by (simp add: cubeInv_def t1_def)
  have sub: "set (sort (minterms p1 @ minterms p2)) \<subseteq> S" using p1 p2 by (auto simp: cubeInv_def)
  have srt: "sorted_wrt (<) (sort (minterms p1 @ minterms p2))"
    using dist by (simp add: strict_sorted_iff)
  show "cubeInv S V \<lparr>term_str = newTerm, minterms = sort (minterms p1 @ minterms p2), isPrime = b\<rparr>"
    unfolding cubeInv_def using cube nt l1 srt setn lenn sub by simp
  show "countDashes newTerm = Suc (countDashes (term_str p1))" using cnt by (simp add: t1_def)
qed

lemma seed_cubeInv:
  assumes "0 < V" "m < 2 ^ V" "m \<in> S"
  shows "cubeInv S V \<lparr>term_str = bitsOf V m, minterms = [m], isPrime = b\<rparr>"
    and "countDashes (bitsOf V m) = 0"
proof -
  note bp = bitsOf_props[OF assms(2,1)]
  have nodash: "CHR ''-'' \<notin> set (bitsOf V m)" using bp(2) by auto
  show cd: "countDashes (bitsOf V m) = 0"
    using nodash by (auto simp: countDashes_def filter_empty_conv)
  have cube: "isCube (bitsOf V m)" using bp(2) by (auto simp: isCube_def list_all_iff)
  have hold: "holds V (bitsOf V m) n \<longleftrightarrow> n = m" if "n < 2 ^ V" for n
  proof
    assume h: "holds V (bitsOf V m) n"
    have "bitsOf V m = bitsOf V n"
    proof (rule nth_equalityI)
      show "length (bitsOf V m) = length (bitsOf V n)"
        using bp(1) bitsOf_props(1)[OF that assms(1)] by simp
      fix i assume i: "i < length (bitsOf V m)"
      then have "bitsOf V m ! i \<noteq> CHR ''-''" using nodash nth_mem by metis
      then show "bitsOf V m ! i = bitsOf V n ! i"
        using h i by (auto simp: holds_def cubeMatches_nth)
    qed
    then show "n = m" using bitsOf_inj[OF assms(2) that assms(1)] by simp
  next
    assume "n = m"
    then show "holds V (bitsOf V m) n" by (simp add: holds_def cubeMatches_nth)
  qed
  have "{n. n < 2 ^ V \<and> holds V (bitsOf V m) n} = {m}" using hold assms(2) by auto
  then show "cubeInv S V \<lparr>term_str = bitsOf V m, minterms = [m], isPrime = b\<rparr>"
    unfolding cubeInv_def using cube bp(1) cd assms(3) by simp
qed

lemma concat_update_append:
  assumes "i < length gs"
  shows "set (concat (gs[i := gs ! i @ [x]])) = insert x (set (concat gs))"
proof -
  have g: "gs = take i gs @ gs ! i # drop (Suc i) gs" using assms by (rule id_take_nth_drop)
  have "gs[i := gs ! i @ [x]] = take i gs @ (gs ! i @ [x]) # drop (Suc i) gs"
    using assms by (rule upd_conv_take_nth_drop)
  then have "set (concat (gs[i := gs ! i @ [x]]))
      = set (concat (take i gs)) \<union> insert x (set (gs ! i)) \<union> set (concat (drop (Suc i) gs))"
    by auto
  also have "\<dots> = insert x (set (concat (take i gs @ gs ! i # drop (Suc i) gs)))" by auto
  finally show ?thesis using g by simp
qed

lemma nth_nth_in_concat: "i < length gs \<Longrightarrow> j < length (gs ! i) \<Longrightarrow> gs ! i ! j \<in> set (concat gs)"
  by (metis (no_types, lifting) UN_I nth_mem set_concat)

lemma in_concat_update:
  assumes "p \<in> set (concat (gs[i := ys]))"
  shows "p \<in> set (concat gs) \<or> p \<in> set ys"
proof -
  from assms obtain g where g: "g \<in> set (gs[i := ys])" "p \<in> set g" by auto
  then have "g \<in> insert ys (set gs)" using set_update_subset_insert by fastforce
  then show ?thesis using g(2) by auto
qed

lemma in_concat_setNotPrime:
  assumes "p \<in> set (concat (setNotPrime i j gs))"
  shows "p \<in> set (concat gs) \<or>
         (i < length gs \<and> j < length (gs ! i) \<and> p = (gs ! i ! j)\<lparr>isPrime := False\<rparr>)"
proof (cases "i < length gs \<and> j < length (gs ! i)")
  case False
  then have "setNotPrime i j gs = gs"
    by (auto simp: setNotPrime_def list_update_beyond not_less list_update_same_conv)
  then show ?thesis using assms by simp
next
  case True
  from assms have "p \<in> set (concat gs) \<or> p \<in> set ((gs ! i)[j := (gs ! i ! j)\<lparr>isPrime := False\<rparr>])"
    unfolding setNotPrime_def by (rule in_concat_update)
  moreover have "set ((gs ! i)[j := (gs ! i ! j)\<lparr>isPrime := False\<rparr>])
                 \<subseteq> insert ((gs ! i ! j)\<lparr>isPrime := False\<rparr>) (set (gs ! i))"
    by (rule set_update_subset_insert)
  moreover have "set (gs ! i) \<subseteq> set (concat gs)"
  proof -
    have "gs ! i \<in> set gs" using True by simp
    then show ?thesis by (simp only: set_concat) blast
  qed
  ultimately show ?thesis using True by auto
qed

lemma map_core_setNotPrime: "map (map core) (setNotPrime i j gs) = map (map core) gs"
proof (cases "i < length gs")
  case False
  then show ?thesis by (simp add: setNotPrime_def list_update_beyond)
next
  case True
  have "map core ((gs ! i)[j := (gs ! i ! j)\<lparr>isPrime := False\<rparr>]) = map core (gs ! i)"
  proof (cases "j < length (gs ! i)")
    case False
    then show ?thesis by (simp add: list_update_beyond)
  next
    case j: True
    have "map core ((gs ! i)[j := (gs ! i ! j)\<lparr>isPrime := False\<rparr>])
          = (map core (gs ! i))[j := core ((gs ! i ! j)\<lparr>isPrime := False\<rparr>)]"
      by (rule map_update)
    also have "core ((gs ! i ! j)\<lparr>isPrime := False\<rparr>) = map core (gs ! i) ! j"
      using j by (simp add: core_def)
    also have "(map core (gs ! i))[j := map core (gs ! i) ! j] = map core (gs ! i)"
      by (rule list_update_id)
    finally show ?thesis .
  qed
  then have "map (map core) (setNotPrime i j gs) = (map (map core) gs)[i := map (map core) gs ! i]"
    using True by (simp add: setNotPrime_def map_update)
  then show ?thesis by (simp only: list_update_id)
qed

lemma setNotPrime_nth_other:
  "i \<noteq> i' \<Longrightarrow> setNotPrime i j gs ! i' = gs ! i'"
  by (simp add: setNotPrime_def)

lemma cubeInv_core: "core p = core q \<Longrightarrow> cubeInv S V p = cubeInv S V q"
  by (simp add: core_def cubeInv_def)

lemma core_lengths:
  assumes "map (map core) c = map (map core) cur0"
  shows "length c = length cur0" "i < length cur0 \<Longrightarrow> length (c ! i) = length (cur0 ! i)"
proof -
  show l: "length c = length cur0" using assms by (metis length_map)
  assume i: "i < length cur0"
  have "map core (c ! i) = map core (cur0 ! i)"
    using assms i l by (metis nth_map)
  then show "length (c ! i) = length (cur0 ! i)" by (metis length_map)
qed

lemma core_member:
  assumes "map (map core) c = map (map core) cur0" "p \<in> set (concat c)"
  shows "\<exists>p0\<in>set (concat cur0). core p0 = core p"
proof -
  have "core p \<in> core ` set (concat c)" using assms(2) by (rule imageI)
  then have "core p \<in> set (concat (map (map core) c))" by (simp add: map_concat[symmetric])
  then have "core p \<in> set (concat (map (map core) cur0))" using assms(1) by simp
  then have "core p \<in> core ` set (concat cur0)" by (simp add: map_concat[symmetric])
  then show ?thesis by (metis imageE)
qed

lemma roundInv_cur:
  assumes "roundPre S V r cur0" "roundInv S V r cur0 st" "p \<in> set (concat (fst st))"
  shows "cubeInv S V p" "countDashes (term_str p) = r"
proof -
  obtain p0 where p0: "p0 \<in> set (concat cur0)" "core p0 = core p"
    using core_member[of "fst st" cur0 p] assms(2,3) by (auto simp: roundInv_def)
  have "cubeInv S V p0" "countDashes (term_str p0) = r" using assms(1) p0(1) by (auto simp: roundPre_def)
  then show "cubeInv S V p" "countDashes (term_str p) = r"
    using p0(2) cubeInv_core[OF p0(2)] by (auto simp: core_def)
qed

lemma combineStep_inv:
  assumes V: "0 < V" and pre: "roundPre S V r cur0" and inv: "roundInv S V r cur0 st"
    and i: "Suc i < length cur0" and j: "j < length (cur0 ! i)" and k: "k < length (cur0 ! Suc i)"
  shows "\<exists>st'. combineStep i j k st = Inr st' \<and> roundInv S V r cur0 st'"
proof -
  obtain c n where st: "st = (c, n)" by (cases st)
  have mc: "map (map core) c = map (map core) cur0" using inv by (simp add: roundInv_def st)
  have ln: "length n = V + 1" using inv by (simp add: roundInv_def st)
  have invn: "\<forall>q\<in>set (concat n). cubeInv S V q \<and> countDashes (term_str q) = Suc r \<and> isPrime q"
    using inv unfolding roundInv_def st fst_conv snd_conv by blast
  have invf: "\<forall>p\<in>set (concat c). \<not> isPrime p \<longrightarrow>
                (\<exists>q\<in>set (concat n). set (minterms p) \<subseteq> set (minterms q))"
    using inv unfolding roundInv_def st fst_conv snd_conv by blast
  have lc: "length c = length cur0" by (rule core_lengths(1)[OF mc])
  have lci: "length (c ! i) = length (cur0 ! i)" using core_lengths(2)[OF mc, of i] i by simp
  have lcs: "length (c ! Suc i) = length (cur0 ! Suc i)" using core_lengths(2)[OF mc i] .
  define t1 where "t1 = c ! i ! j"
  define t2 where "t2 = c ! Suc i ! k"
  have t1in: "t1 \<in> set (concat c)" unfolding t1_def
    by (rule nth_nth_in_concat) (use i j lc lci in auto)
  have t2in: "t2 \<in> set (concat c)" unfolding t2_def
    by (rule nth_nth_in_concat) (use i k lc lcs in auto)
  have ci1: "cubeInv S V t1" and d1: "countDashes (term_str t1) = r"
    using roundInv_cur[OF pre inv, of t1] t1in by (auto simp: st)
  have ci2: "cubeInv S V t2" and d2: "countDashes (term_str t2) = r"
    using roundInv_cur[OF pre inv, of t2] t2in by (auto simp: st)
  show ?thesis
  proof (cases "diffIndex (term_str t1) (term_str t2) = - 1")
    case True
    then have "combineStep i j k st = Inr st"
      by (simp add: combineStep_def st Let_def t1_def t2_def)
    then show ?thesis using inv by simp
  next
    case False
    define d where "d = nat (diffIndex (term_str t1) (term_str t2))"
    define newTerm where "newTerm = take d (term_str t1) @ ''-'' @ drop (d + 1) (term_str t1)"
    define newCube where
      "newCube = \<lparr>term_str = newTerm, minterms = sort (minterms t1 @ minterms t2), isPrime = True\<rparr>"
    have nci: "cubeInv S V newCube" and nd: "countDashes newTerm = Suc r"
      using combine_cubeInv(1)[OF V ci1 ci2 _ False, where b=True]
        combine_cubeInv(2)[OF V ci1 ci2 _ False] d1 d2
      by (simp_all add: newCube_def newTerm_def d_def)
    have iln: "i < length n" using i pre ln by (simp add: roundPre_def)
    define c' where "c' = setNotPrime (Suc i) k (setNotPrime i j c)"
    define n' where "n' = (case find (\<lambda>t. term_str t = newTerm) (n ! i) of
                            Some existing \<Rightarrow> n
                          | None \<Rightarrow> n[i := n ! i @ [newCube]])"
    have step: "combineStep i j k st = Inr (c', n')"
      unfolding c'_def n'_def newCube_def newTerm_def d_def using False iln
      by (simp add: combineStep_def st Let_def t1_def t2_def cong: option.case_cong)
    have mc': "map (map core) c' = map (map core) cur0"
      unfolding c'_def by (simp add: map_core_setNotPrime mc)
    have ln': "length n' = V + 1" unfolding n'_def using ln by (simp split: option.splits)
    have sub: "set (concat n) \<subseteq> set (concat n')"
      unfolding n'_def using concat_update_append[OF iln, of newCube]
      by (auto split: option.splits)
    have sup: "set (concat n') \<subseteq> insert newCube (set (concat n))"
      unfolding n'_def using concat_update_append[OF iln, of newCube]
      by (auto split: option.splits)
    have nxt: "\<forall>q\<in>set (concat n'). cubeInv S V q \<and> countDashes (term_str q) = Suc r \<and> isPrime q"
    proof
      fix q assume "q \<in> set (concat n')"
      then have "q = newCube \<or> q \<in> set (concat n)" using sup by auto
      then show "cubeInv S V q \<and> countDashes (term_str q) = Suc r \<and> isPrime q"
        using nci nd invn by (auto simp: newCube_def)
    qed
    have big: "\<exists>q\<in>set (concat n'). set (minterms q) = set (minterms t1) \<union> set (minterms t2)"
    proof (cases "find (\<lambda>t. term_str t = newTerm) (n ! i)")
      case None
      then have "newCube \<in> set (concat n')"
        unfolding n'_def using concat_update_append[OF iln, of newCube] by simp
      then show ?thesis by (intro bexI[of _ newCube]) (simp_all add: newCube_def)
    next
      case (Some ex)
      then have ex: "ex \<in> set (n ! i)" "term_str ex = newTerm"
        by (auto simp: find_Some_iff)
      have "n ! i \<in> set n" using iln by simp
      then have exin: "ex \<in> set (concat n)" using ex(1) by (simp only: set_concat) blast
      then have "cubeInv S V ex" using invn by blast
      then have "minterms ex = minterms newCube"
        by (rule cubeInv_same_term[OF _ nci]) (simp add: ex(2) newCube_def)
      then have "set (minterms ex) = set (minterms t1) \<union> set (minterms t2)"
        by (simp add: newCube_def)
      then show ?thesis using exin sub by blast
    qed
    then obtain qq where qq: "qq \<in> set (concat n')"
      "set (minterms qq) = set (minterms t1) \<union> set (minterms t2)" by blast
    have t2': "setNotPrime i j c ! Suc i ! k = t2"
      by (simp add: setNotPrime_nth_other t2_def)
    have flg: "\<forall>p\<in>set (concat c'). \<not> isPrime p \<longrightarrow>
                 (\<exists>q\<in>set (concat n'). set (minterms p) \<subseteq> set (minterms q))"
    proof (intro ballI impI)
      fix p assume p: "p \<in> set (concat c')" "\<not> isPrime p"
      from p(1) have "p \<in> set (concat (setNotPrime i j c)) \<or> p = t2\<lparr>isPrime := False\<rparr>"
        unfolding c'_def using in_concat_setNotPrime[of p "Suc i" k "setNotPrime i j c"] t2' by auto
      then have "p \<in> set (concat c) \<or> p = t1\<lparr>isPrime := False\<rparr> \<or> p = t2\<lparr>isPrime := False\<rparr>"
        using in_concat_setNotPrime[of p i j c] by (auto simp: t1_def)
      then consider "p \<in> set (concat c)" | "p = t1\<lparr>isPrime := False\<rparr>" | "p = t2\<lparr>isPrime := False\<rparr>"
        by blast
      then show "\<exists>q\<in>set (concat n'). set (minterms p) \<subseteq> set (minterms q)"
      proof cases
        case 1
        then obtain q where "q \<in> set (concat n)" "set (minterms p) \<subseteq> set (minterms q)"
          using invf p(2) by blast
        then show ?thesis using sub by blast
      next
        case 2
        then show ?thesis using qq by (intro bexI[of _ qq]) auto
      next
        case 3
        then show ?thesis using qq by (intro bexI[of _ qq]) auto
      qed
    qed
    have "roundInv S V r cur0 (c', n')"
      unfolding roundInv_def fst_conv snd_conv using mc' ln' nxt flg by blast
    then show ?thesis using step by simp
  qed
qed

lemma loopT2_inv:
  assumes V: "0 < V" and pre: "roundPre S V r cur0" and inv: "roundInv S V r cur0 st"
    and i: "Suc i < length cur0" and j: "j < length (cur0 ! i)"
  shows "\<exists>st'. loopT2 i j st = Inr st' \<and> roundInv S V r cur0 st'"
  unfolding loopT2_def
proof (rule foldE_total[where I="roundInv S V r cur0"])
  show "roundInv S V r cur0 st" by fact
  fix k s assume a: "k \<in> set [0..<length (fst st ! (i + 1))]" "roundInv S V r cur0 s"
  have "length (fst st ! Suc i) = length (cur0 ! Suc i)"
    using core_lengths(2)[OF _ i, of "fst st"] inv by (simp add: roundInv_def)
  then have "k < length (cur0 ! Suc i)" using a(1) by simp
  then show "\<exists>s'. combineStep i j k s = Inr s' \<and> roundInv S V r cur0 s'"
    by (rule combineStep_inv[OF V pre a(2) i j])
qed

lemma loopT1_inv:
  assumes V: "0 < V" and pre: "roundPre S V r cur0" and inv: "roundInv S V r cur0 st"
    and i: "Suc i < length cur0"
  shows "\<exists>st'. loopT1 i st = Inr st' \<and> roundInv S V r cur0 st'"
  unfolding loopT1_def
proof (rule foldE_total[where I="roundInv S V r cur0"])
  show "roundInv S V r cur0 st" by fact
  fix j s assume a: "j \<in> set [0..<length (fst st ! i)]" "roundInv S V r cur0 s"
  have "length (fst st ! i) = length (cur0 ! i)"
    using core_lengths(2)[of "fst st" cur0 i] inv i by (simp add: roundInv_def)
  then have "j < length (cur0 ! i)" using a(1) by simp
  then show "\<exists>s'. loopT2 i j s = Inr s' \<and> roundInv S V r cur0 s'"
    by (rule loopT2_inv[OF V pre a(2) i])
qed

lemma roundInv_init:
  assumes "roundPre S V r cur0"
  shows "roundInv S V r cur0 (cur0, replicate (V + 1) [])"
proof -
  have "concat (replicate (V + 1) ([]::Implicant list)) = []"
    by (induction V) simp_all
  then show ?thesis using assms unfolding roundInv_def roundPre_def fst_conv snd_conv
    by (simp del: replicate_Suc)
qed

lemma combineRound_inv:
  assumes V: "0 < V" and pre: "roundPre S V r cur0"
  shows "\<exists>st'. combineRound V cur0 = Inr st' \<and> roundInv S V r cur0 st'"
  unfolding combineRound_def
proof (rule foldE_total[where I="roundInv S V r cur0"])
  show "roundInv S V r cur0 (cur0, replicate (V + 1) [])" by (rule roundInv_init[OF pre])
  fix i s assume a: "i \<in> set [0..<length cur0 - 1]" "roundInv S V r cur0 s"
  then have "Suc i < length cur0" by auto
  then show "\<exists>s'. loopT1 i s = Inr s' \<and> roundInv S V r cur0 s'"
    by (rule loopT1_inv[OF V pre a(2)])
qed

lemma concat_none_nonempty: "\<not> list_ex (\<lambda>g. g \<noteq> []) gs \<Longrightarrow> set (concat gs) = {}"
  by (induction gs) simp_all

lemma concat_all_empty: "list_all (\<lambda>g. g = []) gs \<Longrightarrow> set (concat gs) = {}"
  by (induction gs) simp_all

lemma primeLoop_inv:
  assumes "0 < V" "roundPre S V r cur" "\<forall>p\<in>set primes. cubeInv S V p"
    "\<forall>m\<in>S. \<exists>p\<in>set primes \<union> set (concat cur). m \<in> set (minterms p)"
  shows "\<exists>res. primeLoop V cur primes = Inr res \<and> (\<forall>p\<in>set res. cubeInv S V p) \<and>
           (\<forall>m\<in>S. \<exists>p\<in>set res. m \<in> set (minterms p))"
  using assms
proof (induction V cur primes arbitrary: r rule: primeLoop.induct)
  case (1 V cur primes)
  show ?case
  proof (cases "list_ex (\<lambda>g. g \<noteq> []) cur")
    case False
    then have emp: "set (concat cur) = {}" by (rule concat_none_nonempty)
    have "\<forall>m\<in>S. \<exists>p\<in>set primes. m \<in> set (minterms p)"
      using 1(5) unfolding emp Un_empty_right .
    moreover have "primeLoop V cur primes = Inr primes"
      using False by (subst primeLoop.simps) simp
    ultimately show ?thesis using 1(4) by blast
  next
    case True
    obtain st' where st': "combineRound V cur = Inr st'" "roundInv S V r cur st'"
      using combineRound_inv[OF 1(2,3)] by blast
    obtain c n where cn: "st' = (c, n)" by (cases st')
    have rnd: "combineRound V cur = Inr (c, n)" and inv: "roundInv S V r cur (c, n)"
      using st' cn by simp_all
    define primes' where "primes' = primes @ filter isPrime (concat c)"
    have mc: "map (map core) cur = map (map core) c" using inv by (simp add: roundInv_def)
    have invn: "\<forall>q\<in>set (concat n). cubeInv S V q \<and> countDashes (term_str q) = Suc r \<and> isPrime q"
      using inv unfolding roundInv_def fst_conv snd_conv by blast
    have invf: "\<forall>p\<in>set (concat c). \<not> isPrime p \<longrightarrow>
                  (\<exists>q\<in>set (concat n). set (minterms p) \<subseteq> set (minterms q))"
      using inv unfolding roundInv_def fst_conv snd_conv by blast
    have ci': "\<forall>p\<in>set primes'. cubeInv S V p"
    proof
      fix p assume "p \<in> set primes'"
      then have "p \<in> set primes \<or> p \<in> set (concat c)" by (auto simp: primes'_def)
      then show "cubeInv S V p" using 1(4) roundInv_cur(1)[OF 1(3) inv, of p] by auto
    qed
    have cov': "\<forall>m\<in>S. \<exists>p\<in>set primes' \<union> set (concat n). m \<in> set (minterms p)"
    proof
      fix m assume "m \<in> S"
      then obtain p where p: "p \<in> set primes \<union> set (concat cur)" "m \<in> set (minterms p)"
        using 1(5) by blast
      show "\<exists>p\<in>set primes' \<union> set (concat n). m \<in> set (minterms p)"
      proof (cases "p \<in> set primes")
        case True
        then show ?thesis using p(2) by (auto simp: primes'_def)
      next
        case False
        then have "p \<in> set (concat cur)" using p(1) by simp
        then obtain p' where p': "p' \<in> set (concat c)" "core p' = core p"
          using core_member[OF mc] by blast
        then have mp: "m \<in> set (minterms p')" using p(2) by (simp add: core_def)
        show ?thesis
        proof (cases "isPrime p'")
          case True
          then have "p' \<in> set primes'" using p'(1) by (simp add: primes'_def)
          then show ?thesis using mp by blast
        next
          case False
          then obtain q where "q \<in> set (concat n)" "set (minterms p') \<subseteq> set (minterms q)"
            using invf p'(1) by blast
          then show ?thesis using mp by blast
        qed
      qed
    qed
    show ?thesis
    proof (cases "list_all (\<lambda>g. g = []) n")
      case e: True
      then have emp: "set (concat n) = {}" by (rule concat_all_empty)
      have "\<forall>m\<in>S. \<exists>p\<in>set primes'. m \<in> set (minterms p)"
        using cov' unfolding emp Un_empty_right .
      moreover have "primeLoop V cur primes = Inr primes'"
        using True rnd e by (subst primeLoop.simps) (simp add: primes'_def)
      ultimately show ?thesis using ci' by blast
    next
      case e: False
      have "length n = V + 1" using inv by (simp add: roundInv_def)
      then have pre': "roundPre S V (Suc r) n"
        unfolding roundPre_def using invn by blast
      have "\<exists>res. primeLoop V n primes' = Inr res \<and> (\<forall>p\<in>set res. cubeInv S V p) \<and>
           (\<forall>m\<in>S. \<exists>p\<in>set res. m \<in> set (minterms p))"
        unfolding primes'_def
        by (rule 1(1)[OF True rnd refl e 1(2) pre' ci'[unfolded primes'_def] cov'[unfolded primes'_def]])
      moreover have "primeLoop V cur primes = primeLoop V n primes'"
        using True rnd e by (subst primeLoop.simps) (simp add: primes'_def)
      ultimately show ?thesis by simp
    qed
  qed
qed

lemma countOnes_le: "countOnes s \<le> length s"
  by (simp add: countOnes_def)

lemma seedGroups_inv:
  assumes "0 < V" "\<forall>m\<in>set xs. m < 2 ^ V" "length gs = V + 1"
  shows "\<exists>gs'. seedGroups V xs gs = Inr gs' \<and> length gs' = V + 1 \<and>
           set (concat gs') = set (concat gs) \<union>
             (\<lambda>m. \<lparr>term_str = bitsOf V m, minterms = [m], isPrime = True\<rparr>) ` set xs"
  using assms
proof (induction xs arbitrary: gs)
  case Nil
  then show ?case by simp
next
  case (Cons m xs)
  define ones where "ones = countOnes (bitsOf V m)"
  define cube where "cube = \<lparr>term_str = bitsOf V m, minterms = [m], isPrime = True\<rparr>"
  define gs1 where "gs1 = gs[ones := gs ! ones @ [cube]]"
  have m: "m < 2 ^ V" using Cons.prems(2) by simp
  have "ones \<le> V" using countOnes_le[of "bitsOf V m"] bitsOf_props(1)[OF m Cons.prems(1)]
    by (simp add: ones_def)
  then have ol: "ones < length gs" using Cons.prems(3) by simp
  have step: "seedGroups V (m # xs) gs = seedGroups V xs gs1"
    using ol by (simp add: Let_def bitsOf_def ones_def gs1_def cube_def)
  have l1: "length gs1 = V + 1" using Cons.prems(3) by (simp add: gs1_def)
  have s1: "set (concat gs1) = insert cube (set (concat gs))"
    unfolding gs1_def by (rule concat_update_append[OF ol])
  obtain gs' where g: "seedGroups V xs gs1 = Inr gs'" "length gs' = V + 1"
    "set (concat gs') = set (concat gs1) \<union>
             (\<lambda>m. \<lparr>term_str = bitsOf V m, minterms = [m], isPrime = True\<rparr>) ` set xs"
    using Cons.IH[OF Cons.prems(1) _ l1] Cons.prems(2) by auto
  have "set (concat gs') = set (concat gs) \<union>
             (\<lambda>m. \<lparr>term_str = bitsOf V m, minterms = [m], isPrime = True\<rparr>) ` set (m # xs)"
    unfolding g(3) s1 by (auto simp: cube_def)
  then show ?case using step g(1,2) by simp
qed

lemma seedGroups_pre:
  assumes "0 < V" "\<forall>m\<in>set xs. m < 2 ^ V"
  shows "\<exists>gs. seedGroups V xs (replicate (V + 1) []) = Inr gs \<and> roundPre (set xs) V 0 gs \<and>
           (\<forall>m\<in>set xs. \<exists>p\<in>set (concat gs). m \<in> set (minterms p))"
proof -
  have c0: "set (concat (replicate (V + 1) ([]::Implicant list))) = {}"
    by (induction V) simp_all
  obtain gs where g: "seedGroups V xs (replicate (V + 1) []) = Inr gs" "length gs = V + 1"
    "set (concat gs) = set (concat (replicate (V + 1) [])) \<union>
       (\<lambda>m. \<lparr>term_str = bitsOf V m, minterms = [m], isPrime = True\<rparr>) ` set xs"
    using seedGroups_inv[OF assms, of "replicate (V + 1) []"] by auto
  have sg: "set (concat gs) = (\<lambda>m. \<lparr>term_str = bitsOf V m, minterms = [m], isPrime = True\<rparr>) ` set xs"
    unfolding g(3) c0 by simp
  have pre: "roundPre (set xs) V 0 gs"
    unfolding roundPre_def sg
    using g(2) assms seed_cubeInv(1)[OF assms(1), where S="set xs" and b=True]
      seed_cubeInv(2)[OF assms(1), where S="set xs"]
    by auto
  have cov: "\<forall>m\<in>set xs. \<exists>p\<in>set (concat gs). m \<in> set (minterms p)"
    unfolding sg by auto
  show ?thesis using g(1) pre cov by blast
qed

lemma uniqueByTerm_inv:
  assumes "set seen = term_str ` set acc" "distinct (map term_str acc)"
  shows "set (snd (uniqueByTerm ps (seen, acc))) \<subseteq> set acc \<union> set ps \<and>
         (\<forall>p\<in>set acc \<union> set ps. \<exists>q\<in>set (snd (uniqueByTerm ps (seen, acc))). term_str q = term_str p) \<and>
         distinct (map term_str (snd (uniqueByTerm ps (seen, acc))))"
  using assms
proof (induction ps arbitrary: seen acc)
  case Nil
  then show ?case by auto
next
  case (Cons p ps)
  show ?case
  proof (cases "term_str p \<in> set seen")
    case True
    then obtain q where q: "q \<in> set acc" "term_str q = term_str p" using Cons.prems(1) by auto
    note ih = Cons.IH[OF Cons.prems]
    have "\<exists>q'\<in>set (snd (uniqueByTerm ps (seen, acc))). term_str q' = term_str q"
      using ih q(1) by blast
    then have "\<exists>q'\<in>set (snd (uniqueByTerm ps (seen, acc))). term_str q' = term_str p"
      using q(2) by simp
    then show ?thesis using True ih by auto
  next
    case False
    have a: "set (seen @ [term_str p]) = term_str ` set (acc @ [p])" using Cons.prems(1) by auto
    have b: "distinct (map term_str (acc @ [p]))" using Cons.prems False by auto
    show ?thesis using False Cons.IH[OF a b] by auto
  qed
qed

lemma qmPrimes_inv:
  assumes "0 < V" "\<forall>m\<in>set (ms @ dcs). m < 2 ^ V"
  shows "\<exists>ups. qmPrimes V ms dcs = Inr ups \<and> (\<forall>p\<in>set ups. cubeInv (set (ms @ dcs)) V p) \<and>
           (\<forall>m\<in>set (ms @ dcs). \<exists>p\<in>set ups. m \<in> set (minterms p)) \<and>
           distinct (map term_str ups)"
proof -
  define S where "S = set (ms @ dcs)"
  obtain gs where gs: "seedGroups V (ms @ dcs) (replicate (V + 1) []) = Inr gs"
    "roundPre S V 0 gs" "\<forall>m\<in>S. \<exists>p\<in>set (concat gs). m \<in> set (minterms p)"
    using seedGroups_pre[OF assms] unfolding S_def by blast
  have cov0: "\<forall>m\<in>S. \<exists>p\<in>set [] \<union> set (concat gs). m \<in> set (minterms p)" using gs(3) by simp
  obtain res where res: "primeLoop V gs [] = Inr res" "\<forall>p\<in>set res. cubeInv S V p"
    "\<forall>m\<in>S. \<exists>p\<in>set res. m \<in> set (minterms p)"
    using primeLoop_inv[OF assms(1) gs(2) _ cov0] by auto
  define ups where "ups = snd (uniqueByTerm res ([], []))"
  have u: "set ups \<subseteq> set res" "\<forall>p\<in>set res. \<exists>q\<in>set ups. term_str q = term_str p"
    "distinct (map term_str ups)"
    using uniqueByTerm_inv[of "[]" "[]" res] unfolding ups_def by auto
  have ci: "\<forall>p\<in>set ups. cubeInv S V p" using u(1) res(2) by blast
  have cov: "\<forall>m\<in>S. \<exists>p\<in>set ups. m \<in> set (minterms p)"
  proof
    fix m assume "m \<in> S"
    then obtain p where p: "p \<in> set res" "m \<in> set (minterms p)" using res(3) by blast
    then obtain q where q: "q \<in> set ups" "term_str q = term_str p" using u(2) by blast
    have "minterms q = minterms p"
      by (rule cubeInv_same_term) (use ci q res(2) p(1) in auto)
    then have "m \<in> set (minterms q)" using p(2) by simp
    then show "\<exists>p\<in>set ups. m \<in> set (minterms p)" using q(1) by blast
  qed
  have "qmPrimes V ms dcs = Inr ups" unfolding qmPrimes_def gs(1) ups_def by (simp add: res(1))
  then show ?thesis using ci cov u(3) unfolding S_def by blast
qed

lemma takePI_inv:
  assumes "coverInv ups ms st" "p \<in> set ups"
  shows "coverInv ups ms (takePI p st)"
  using assms unfolding coverInv_def takePI_def by auto

lemma fold_takePI_inv:
  assumes "coverInv ups ms st" "set ps \<subseteq> set ups"
  shows "coverInv ups ms (fold takePI ps st)"
  using assms by (induction ps arbitrary: st) (simp_all add: takePI_inv)

lemma newEssentialPIs_subset:
  "set (newEssentialPIs (buildCoverage ups ms) rem) \<subseteq> set ups"
proof
  fix p assume "p \<in> set (newEssentialPIs (buildCoverage ups ms) rem)"
  then obtain m where m: "m \<in> set (essentialPositions (buildCoverage ups ms) rem)"
    "p = hd (the (buildCoverage ups ms m))"
    unfolding newEssentialPIs_def set_setAddAll by auto
  then obtain ps where ps: "buildCoverage ups ms m = Some ps" "length ps = 1"
    by (auto simp: essentialPositions_def split: option.splits)
  then obtain q where "ps = [q]" by (cases ps) auto
  then have "p \<in> set ps" using m(2) ps(1) by simp
  then show "p \<in> set ups" by (rule buildCoverage_mem(2)[OF ps(1)])
qed

lemma essentialLoop_inv:
  assumes "coverInv ups ms st"
  shows "coverInv ups ms (essentialLoop ups ms ch st)"
  using assms
proof (induction ups ms ch st rule: essentialLoop.induct)
  case (1 ups ms ch st)
  show ?case
  proof (cases "ch \<and> fst st \<noteq> []")
    case False
    then show ?thesis using 1(3) by (subst essentialLoop.simps) auto
  next
    case True
    define ne where "ne = newEssentialPIs (buildCoverage ups ms) (fst st)"
    show ?thesis
    proof (cases "ne = []")
      case e: True
      have "essentialLoop ups ms ch st = essentialLoop ups ms False st"
        using True e by (subst essentialLoop.simps) (simp add: ne_def Let_def)
      then show ?thesis using 1(2)[OF True ne_def] e 1(3) by simp
    next
      case e: False
      have "essentialLoop ups ms ch st = essentialLoop ups ms True (fold takePI ne st)"
        using True e by (subst essentialLoop.simps) (simp add: ne_def Let_def)
      moreover have "coverInv ups ms (fold takePI ne st)"
        by (rule fold_takePI_inv[OF 1(3)]) (simp add: ne_def newEssentialPIs_subset)
      ultimately show ?thesis using 1(1)[OF True ne_def e] by simp
    qed
  qed
qed

lemma essentialLoop_mono:
  "set (snd st) \<subseteq> set (snd (essentialLoop ups ms ch st))"
proof (induction ups ms ch st rule: essentialLoop.induct)
  case (1 ups ms ch st)
  show ?case
  proof (cases "ch \<and> fst st \<noteq> []")
    case False
    then show ?thesis by (subst essentialLoop.simps) auto
  next
    case True
    define ne where "ne = newEssentialPIs (buildCoverage ups ms) (fst st)"
    show ?thesis
    proof (cases "ne = []")
      case e: True
      have "essentialLoop ups ms ch st = essentialLoop ups ms False st"
        using True e by (subst essentialLoop.simps) (simp add: ne_def Let_def)
      then show ?thesis using 1(2)[OF True ne_def] e by simp
    next
      case e: False
      have "essentialLoop ups ms ch st = essentialLoop ups ms True (fold takePI ne st)"
        using True e by (subst essentialLoop.simps) (simp add: ne_def Let_def)
      moreover have "set (snd st) \<subseteq> set (snd (fold takePI ne st))"
        by (simp add: snd_fold_takePI)
      ultimately show ?thesis using 1(1)[OF True ne_def e] by auto
    qed
  qed
qed

lemma pickStep_bestInv:
  assumes "bestInv seen fin rem best"
  shows "bestInv (seen @ [p]) fin rem (pickStep fin rem p best)"
  using assms unfolding bestInv_def pickStep_def Let_def
  by (cases best) (auto split: if_splits)

lemma fold_pickStep_bestInv:
  assumes "bestInv seen fin rem best"
  shows "bestInv (seen @ ups) fin rem (fold (pickStep fin rem) ups best)"
  using assms
proof (induction ups arbitrary: seen best)
  case Nil
  then show ?case by simp
next
  case (Cons p ups)
  have "bestInv ((seen @ [p]) @ ups) fin rem (fold (pickStep fin rem) ups (pickStep fin rem p best))"
    by (rule Cons.IH[OF pickStep_bestInv[OF Cons.prems]])
  then show ?case by simp
qed

lemma pickBest_bestInv: "bestInv ups fin rem (pickBest ups fin rem)"
  using fold_pickStep_bestInv[of "[]" fin rem "(None, - 1)" ups]
  by (simp add: pickBest_def bestInv_def)

lemma greedyLoop_inv:
  assumes "coverInv ups ms st"
  shows "coverInv ups ms (greedyLoop ups st)"
  using assms
proof (induction ups st rule: greedyLoop.induct)
  case (1 ups st)
  show ?case
  proof (cases "fst st \<noteq> []")
    case False
    then show ?thesis using 1(2) by (subst greedyLoop.simps) simp
  next
    case True
    obtain b mc where pb: "pickBest ups (snd st) (fst st) = (b, mc)" by (cases "pickBest ups (snd st) (fst st)")
    show ?thesis
    proof (cases "\<exists>q. b = Some q \<and> 0 < mc")
      case False
      then have "greedyLoop ups st = st"
        using True pb by (subst greedyLoop.simps) (auto split: option.splits)
      then show ?thesis using 1(2) by simp
    next
      case t: True
      then obtain q where q: "b = Some q" "0 < mc" by blast
      have "q \<in> set ups" using pickBest_bestInv[of ups "snd st" "fst st"] pb q(1)
        by (simp add: bestInv_def)
      then have "coverInv ups ms (takePI q st)" by (rule takePI_inv[OF 1(2)])
      then have "coverInv ups ms (greedyLoop ups (takePI q st))"
        by (rule 1(1)[OF True pb[symmetric] q(1) q(2)])
      moreover have "greedyLoop ups st = greedyLoop ups (takePI q st)"
        using True pb q by (subst greedyLoop.simps) simp
      ultimately show ?thesis by simp
    qed
  qed
qed

lemma greedyLoop_mono:
  "set (snd st) \<subseteq> set (snd (greedyLoop ups st))"
proof (induction ups st rule: greedyLoop.induct)
  case (1 ups st)
  show ?case
  proof (cases "fst st \<noteq> []")
    case False
    then show ?thesis by (subst greedyLoop.simps) simp
  next
    case True
    obtain b mc where pb: "pickBest ups (snd st) (fst st) = (b, mc)" by (cases "pickBest ups (snd st) (fst st)")
    show ?thesis
    proof (cases "\<exists>q. b = Some q \<and> 0 < mc")
      case False
      then have "greedyLoop ups st = st"
        using True pb by (subst greedyLoop.simps) (auto split: option.splits)
      then show ?thesis by simp
    next
      case t: True
      then obtain q where q: "b = Some q" "0 < mc" by blast
      have "set (snd (takePI q st)) \<subseteq> set (snd (greedyLoop ups (takePI q st)))"
        by (rule 1(1)[OF True pb[symmetric] q(1) q(2)])
      moreover have "greedyLoop ups st = greedyLoop ups (takePI q st)"
        using True pb q by (subst greedyLoop.simps) simp
      ultimately show ?thesis by (auto simp: takePI_def)
    qed
  qed
qed

lemma greedyLoop_done:
  assumes "coverInv ups ms st" "\<forall>m\<in>set ms. \<exists>p\<in>set ups. m \<in> set (minterms p)"
  shows "fst (greedyLoop ups st) = []"
  using assms
proof (induction ups st rule: greedyLoop.induct)
  case (1 ups st)
  show ?case
  proof (cases "fst st \<noteq> []")
    case False
    then show ?thesis by (subst greedyLoop.simps) simp
  next
    case True
    obtain b mc where pb: "pickBest ups (snd st) (fst st) = (b, mc)" by (cases "pickBest ups (snd st) (fst st)")
    note bi = pickBest_bestInv[of ups "snd st" "fst st", unfolded pb bestInv_def fst_conv snd_conv]
    obtain m where m: "m \<in> set (fst st)" using True by (cases "fst st") auto
    then have mms: "m \<in> set ms" and unc: "\<forall>p\<in>set (snd st). m \<notin> set (minterms p)"
      using 1(2) by (auto simp: coverInv_def)
    obtain p where p: "p \<in> set ups" "m \<in> set (minterms p)" using 1(3) mms by blast
    have pf: "p \<notin> set (snd st)" using unc p(2) by blast
    have "m \<in> set (filter (\<lambda>m. m \<in> set (fst st)) (minterms p))" using m p(2) by simp
    then have "0 < length (filter (\<lambda>m. m \<in> set (fst st)) (minterms p))"
      by (metis length_greater_0_conv empty_iff empty_set)
    moreover have "int (length (filter (\<lambda>m. m \<in> set (fst st)) (minterms p))) \<le> mc"
      using bi p(1) pf by blast
    ultimately have mc: "0 < mc" by linarith
    then have "b \<noteq> None" using bi by auto
    then obtain q where q: "b = Some q" by auto
    have "q \<in> set ups" using bi q by blast
    then have "coverInv ups ms (takePI q st)" by (rule takePI_inv[OF 1(2)])
    then have "fst (greedyLoop ups (takePI q st)) = []"
      by (rule 1(1)[OF True pb[symmetric] q mc _ 1(3)])
    moreover have "greedyLoop ups st = greedyLoop ups (takePI q st)"
      using True pb q mc by (subst greedyLoop.simps) simp
    ultimately show ?thesis by simp
  qed
qed

section \<open>Completeness of the combination rounds\<close>

lemma diffIndexFrom_exact:
  assumes "length t1 = length t2" "d < length t1" "t1 ! d \<noteq> t2 ! d"
    "\<forall>j<length t1. j \<noteq> d \<longrightarrow> t1 ! j = t2 ! j" "i \<le> length t1"
    "if i \<le> d then diff = - 1 else diff = int d"
  shows "diffIndexFrom t1 t2 i diff = int d"
  using assms
proof (induction t1 t2 i diff rule: diffIndexFrom.induct)
  case (1 t1 t2 i diff)
  show ?case
  proof (cases "i < length t1")
    case False
    then have "\<not> i \<le> d" using 1(4) by simp
    then have "diff = int d" using 1(8) by simp
    then show ?thesis using False by (subst diffIndexFrom.simps) simp
  next
    case True
    show ?thesis
    proof (cases "i = d")
      case id: True
      have ne: "strAt t1 i \<noteq> strAt t2 i" using True 1(3,5) id by (simp add: strAt_def)
      have dm: "diff = - 1" using 1(8) id by simp
      have r: "diffIndexFrom t1 t2 i diff = diffIndexFrom t1 t2 (i + 1) (int i)"
        using True ne dm by (subst diffIndexFrom.simps) simp
      have "diffIndexFrom t1 t2 (i + 1) (int i) = int d"
      proof (rule 1(1)[OF True ne _ 1(3,4,5,6)])
        show "\<not> diff \<noteq> - 1" using dm by simp
        show "i + 1 \<le> length t1" using True by simp
        show "if i + 1 \<le> d then int i = - 1 else int i = int d" using id by simp
      qed
      then show ?thesis unfolding r .
    next
      case nd: False
      have eq: "\<not> strAt t1 i \<noteq> strAt t2 i" using True 1(3,6) nd by (simp add: strAt_def)
      have r: "diffIndexFrom t1 t2 i diff = diffIndexFrom t1 t2 (i + 1) diff"
        using True eq by (subst diffIndexFrom.simps) simp
      have "diffIndexFrom t1 t2 (i + 1) diff = int d"
      proof (rule 1(2)[OF True eq 1(3,4,5,6)])
        show "i + 1 \<le> length t1" using True by simp
        show "if i + 1 \<le> d then diff = - 1 else diff = int d" using 1(8) nd by (auto split: if_splits)
      qed
      then show ?thesis unfolding r .
    qed
  qed
qed

lemma diffIndex_exact:
  assumes "length t1 = length t2" "d < length t1" "t1 ! d \<noteq> t2 ! d"
    "\<forall>j<length t1. j \<noteq> d \<longrightarrow> t1 ! j = t2 ! j"
  shows "diffIndex t1 t2 = int d"
  unfolding diffIndex_def by (rule diffIndexFrom_exact[OF assms]) simp_all

lemma countOnes_split:
  assumes "d < length t"
  shows "countOnes t = countOnes (take d t) + (if t ! d = CHR ''1'' then 1 else 0)
           + countOnes (drop (Suc d) t)"
proof -
  have "t = take d t @ t ! d # drop (Suc d) t" using assms by (rule id_take_nth_drop)
  then have "countOnes t = countOnes (take d t @ t ! d # drop (Suc d) t)" by simp
  then show ?thesis unfolding countOnes_def by simp
qed

lemma countOnes_update:
  assumes "d < length t"
  shows "countOnes (t[d := c]) = countOnes (take d t) + (if c = CHR ''1'' then 1 else 0)
           + countOnes (drop (Suc d) t)"
  using countOnes_split[of d "t[d := c]"] assms by simp

lemma isCube_update:
  assumes "isCube t" "c = CHR ''0'' \<or> c = CHR ''1'' \<or> c = CHR ''-''"
  shows "isCube (t[d := c])"
  using assms set_update_subset_insert[of t d c] unfolding isCube_def list_all_iff by blast

lemma subcube:
  assumes "implicantOf S V t" "d < V" "t ! d = CHR ''-''" "c = CHR ''0'' \<or> c = CHR ''1''"
  shows "implicantOf S V (t[d := c])" "Suc (countDashes (t[d := c])) = countDashes t"
    "countOnes (t[d := c]) = countOnes t + (if c = CHR ''1'' then 1 else 0)"
proof -
  have cube: "isCube t" and len: "length t = V" and imp: "\<forall>m<2 ^ V. holds V t m \<longrightarrow> m \<in> S"
    using assms(1) by (simp_all add: implicantOf_def)
  have dl: "d < length t" using assms(2) len by simp
  have h: "holds V t m" if hm: "holds V (t[d := c]) m" for m
  proof -
    have l: "length t = length (bitsOf V m)" using hm by (simp add: holds_def cubeMatches_nth)
    have "t ! i = CHR ''-'' \<or> t ! i = bitsOf V m ! i" if i: "i < length t" for i
    proof (cases "i = d")
      case True
      then show ?thesis using assms(3) by simp
    next
      case False
      have "(t[d := c]) ! i = CHR ''-'' \<or> (t[d := c]) ! i = bitsOf V m ! i"
        using hm i by (simp add: holds_def cubeMatches_nth)
      then show ?thesis using False by simp
    qed
    then show ?thesis using l by (simp add: holds_def cubeMatches_nth)
  qed
  show "implicantOf S V (t[d := c])"
    unfolding implicantOf_def using isCube_update[OF cube, of c d] assms(4) len imp h by auto
  have "countDashes ((t[d := c])[d := CHR ''-'']) = Suc (countDashes (t[d := c]))"
    by (rule countDashes_update) (use dl assms(4) in auto)
  moreover have "(t[d := c])[d := CHR ''-''] = t" using assms(3) by (simp add: list_update_same_conv dl)
  ultimately show "Suc (countDashes (t[d := c])) = countDashes t" by simp
  show "countOnes (t[d := c]) = countOnes t + (if c = CHR ''1'' then 1 else 0)"
    using countOnes_update[OF dl, of c] countOnes_split[OF dl] assms(3) by simp
qed

lemma dash_position:
  assumes "countDashes t = Suc r"
  shows "\<exists>d<length t. t ! d = CHR ''-''"
proof -
  have "filter (\<lambda>c. c = CHR ''-'') t \<noteq> []" using assms by (auto simp: countDashes_def)
  then have "CHR ''-'' \<in> set t" by (auto simp: filter_empty_conv)
  then show ?thesis by (auto simp: in_set_conv_nth)
qed

lemma bitsOf_surj:
  assumes "0 < V" "length t = V" "set t \<subseteq> {CHR ''0'', CHR ''1''}"
  shows "\<exists>m<2 ^ V. bitsOf V m = t"
proof -
  let ?B = "{s. set s \<subseteq> {CHR ''0'', CHR ''1''} \<and> length s = V}"
  have fin: "finite ?B" by (rule finite_lists_length_eq) simp
  have c2: "card {CHR ''0'', CHR ''1''} = (2::nat)" by simp
  have "card ?B = card {CHR ''0'', CHR ''1''} ^ V" by (rule card_lists_length_eq) simp
  then have cardB: "card ?B = 2 ^ V" unfolding c2 .
  have sub: "bitsOf V ` {0..<2 ^ V} \<subseteq> ?B"
  proof
    fix s assume "s \<in> bitsOf V ` {0..<2 ^ V}"
    then obtain m where m: "m < 2 ^ V" "s = bitsOf V m" by auto
    show "s \<in> ?B" using bitsOf_props(1,2)[OF m(1) assms(1)] m(2) by simp
  qed
  have inj: "inj_on (bitsOf V) {0..<2 ^ V}"
    by (rule inj_onI) (use bitsOf_inj[OF _ _ assms(1)] in auto)
  have "card (bitsOf V ` {0..<2 ^ V}) = 2 ^ V" using card_image[OF inj] by simp
  then have "bitsOf V ` {0..<2 ^ V} = ?B" using card_subset_eq[OF fin sub] cardB by simp
  moreover have "t \<in> ?B" using assms by simp
  ultimately have "t \<in> bitsOf V ` {0..<2 ^ V}" by simp
  then show ?thesis by auto
qed

lemma nodash_bits:
  assumes "isCube t" "countDashes t = 0"
  shows "set t \<subseteq> {CHR ''0'', CHR ''1''}"
proof -
  have "CHR ''-'' \<notin> set t" using assms(2) by (auto simp: countDashes_def filter_empty_conv)
  then show ?thesis using assms(1) unfolding isCube_def list_all_iff by blast
qed

lemma holds_self:
  assumes "m < 2 ^ V" "0 < V"
  shows "holds V (bitsOf V m) m"
  by (simp add: holds_def cubeMatches_nth)

lemma foldE_hit:
  assumes "foldE f as st = Inr st'" "a \<in> set as" "I st"
    and pres: "\<And>b s s'. b \<in> set as \<Longrightarrow> I s \<Longrightarrow> f b s = Inr s' \<Longrightarrow> I s'"
    and hit: "\<And>s s'. I s \<Longrightarrow> f a s = Inr s' \<Longrightarrow> Q s'"
    and mono: "\<And>b s s'. b \<in> set as \<Longrightarrow> I s \<Longrightarrow> Q s \<Longrightarrow> f b s = Inr s' \<Longrightarrow> Q s'"
  shows "Q st'"
  using assms(1,2,3) pres mono
proof (induction as arbitrary: st)
  case Nil
  then show ?case by simp
next
  case (Cons b as)
  obtain s1 where s1: "f b st = Inr s1" "foldE f as s1 = Inr st'"
    using Cons.prems(1) by (auto split: sum.splits)
  have I1: "I s1" using Cons.prems(4)[OF _ Cons.prems(3) s1(1)] by simp
  show ?case
  proof (cases "a = b")
    case True
    have Q1: "Q s1" using hit[OF Cons.prems(3)] s1(1) True by simp
    have "I st' \<and> Q st'"
    proof (rule foldE_preserves[OF s1(2), where I="\<lambda>s. I s \<and> Q s"])
      show "I s1 \<and> Q s1" using I1 Q1 by simp
      fix c s s' assume "c \<in> set as" "I s \<and> Q s" "f c s = Inr s'"
      then show "I s' \<and> Q s'" using Cons.prems(4)[of c s s'] Cons.prems(5)[of c s s'] by simp
    qed
    then show ?thesis by simp
  next
    case False
    then have a: "a \<in> set as" using Cons.prems(2) by simp
    show ?thesis
    proof (rule Cons.IH[OF s1(2) a I1])
      fix c s s' assume "c \<in> set as" "I s" "f c s = Inr s'"
      then show "I s'" using Cons.prems(4)[of c s s'] by simp
    next
      fix c s s' assume "c \<in> set as" "I s" "Q s" "f c s = Inr s'"
      then show "Q s'" using Cons.prems(5)[of c s s'] by simp
    qed
  qed
qed

lemma hasTerm_append:
  assumes "i < length n"
  shows "hasTerm (n[i := n ! i @ [q]]) i0 t \<longleftrightarrow> hasTerm n i0 t \<or> (i0 = i \<and> term_str q = t)"
  using assms by (auto simp: hasTerm_def nth_list_update)

lemma combineStep_mono:
  assumes "combineStep i j k st = Inr st'" "hasTerm (snd st) i0 t"
  shows "hasTerm (snd st') i0 t"
proof -
  obtain c n where st: "st = (c, n)" by (cases st)
  show ?thesis
    using assms unfolding st combineStep_def Let_def
    by (auto simp: hasTerm_append split: if_splits option.splits)
qed

lemma combineStep_core:
  assumes "combineStep i j k st = Inr st'" "map (map core) (fst st) = map (map core) cur0"
  shows "map (map core) (fst st') = map (map core) cur0"
proof -
  obtain c n where st: "st = (c, n)" by (cases st)
  show ?thesis
    using assms unfolding st combineStep_def Let_def
    by (auto simp: map_core_setNotPrime split: if_splits option.splits)
qed

lemma combineStep_hit:
  assumes "combineStep i j k st = Inr st'"
    "diffIndex (term_str (fst st ! i ! j)) (term_str (fst st ! (i + 1) ! k)) = int d"
  shows "hasTerm (snd st') i
           (take d (term_str (fst st ! i ! j)) @ ''-'' @ drop (d + 1) (term_str (fst st ! i ! j)))"
proof -
  obtain c n where st: "st = (c, n)" by (cases st)
  define newTerm where "newTerm = take d (term_str (c ! i ! j)) @ ''-'' @ drop (d + 1) (term_str (c ! i ! j))"
  have dn: "diffIndex (term_str (c ! i ! j)) (term_str (c ! (i + 1) ! k)) \<noteq> - 1"
    using assms(2) by (simp add: st)
  have il: "i < length n"
    using assms(1) dn unfolding st combineStep_def Let_def by (auto split: if_splits)
  show ?thesis
  proof (cases "find (\<lambda>t. term_str t = newTerm) (n ! i)")
    case None
    have "snd st' = n[i := n ! i @ [\<lparr>term_str = newTerm,
             minterms = sort (minterms (c ! i ! j) @ minterms (c ! (i + 1) ! k)), isPrime = True\<rparr>]]"
      using assms il dn None unfolding st combineStep_def Let_def newTerm_def
      by (auto split: if_splits)
    then show ?thesis using il by (simp add: hasTerm_append st newTerm_def)
  next
    case (Some e)
    then have e: "e \<in> set (n ! i)" "term_str e = newTerm"
      by (auto simp: find_Some_iff)
    have "snd st' = n"
      using assms il dn Some unfolding st combineStep_def Let_def newTerm_def
      by (auto split: if_splits)
    then show ?thesis using il e by (auto simp: hasTerm_def st newTerm_def)
  qed
qed

lemma loopT2_mono:
  assumes "loopT2 i j st = Inr st'" "hasTerm (snd st) i0 t"
  shows "hasTerm (snd st') i0 t"
  by (rule foldE_preserves[OF assms(1)[unfolded loopT2_def], where I="\<lambda>s. hasTerm (snd s) i0 t"])
     (use assms(2) combineStep_mono in auto)

lemma loopT2_core:
  assumes "loopT2 i j st = Inr st'" "map (map core) (fst st) = map (map core) cur0"
  shows "map (map core) (fst st') = map (map core) cur0"
  by (rule foldE_preserves[OF assms(1)[unfolded loopT2_def],
        where I="\<lambda>s. map (map core) (fst s) = map (map core) cur0"])
     (use assms(2) combineStep_core in auto)

lemma loopT1_mono:
  assumes "loopT1 i st = Inr st'" "hasTerm (snd st) i0 t"
  shows "hasTerm (snd st') i0 t"
  by (rule foldE_preserves[OF assms(1)[unfolded loopT1_def], where I="\<lambda>s. hasTerm (snd s) i0 t"])
     (use assms(2) loopT2_mono in auto)

lemma loopT1_core:
  assumes "loopT1 i st = Inr st'" "map (map core) (fst st) = map (map core) cur0"
  shows "map (map core) (fst st') = map (map core) cur0"
  by (rule foldE_preserves[OF assms(1)[unfolded loopT1_def],
        where I="\<lambda>s. map (map core) (fst s) = map (map core) cur0"])
     (use assms(2) loopT1_def loopT2_core in auto)

lemma core_term:
  assumes "map (map core) c = map (map core) cur0" "i < length cur0" "j < length (cur0 ! i)"
  shows "term_str (c ! i ! j) = term_str (cur0 ! i ! j)"
proof -
  have l: "length c = length cur0" "length (c ! i) = length (cur0 ! i)"
    using core_lengths[OF assms(1)] assms(2) by simp_all
  have "map (map core) c ! i ! j = map (map core) cur0 ! i ! j" using assms(1) by simp
  then have "core (c ! i ! j) = core (cur0 ! i ! j)" using l assms(2,3) by simp
  then show ?thesis by (simp add: core_def)
qed

lemma loopT2_hit:
  assumes run: "loopT2 i j st = Inr st'" and mc: "map (map core) (fst st) = map (map core) cur0"
    and i: "Suc i < length cur0" and j: "j < length (cur0 ! i)" and k: "k < length (cur0 ! Suc i)"
    and d: "diffIndex (term_str (cur0 ! i ! j)) (term_str (cur0 ! Suc i ! k)) = int d"
  shows "hasTerm (snd st') i
           (take d (term_str (cur0 ! i ! j)) @ ''-'' @ drop (d + 1) (term_str (cur0 ! i ! j)))"
proof (rule foldE_hit[OF run[unfolded loopT2_def], where a=k
        and I="\<lambda>s. map (map core) (fst s) = map (map core) cur0"])
  have "length (fst st ! Suc i) = length (cur0 ! Suc i)" using core_lengths(2)[OF mc i] .
  then show "k \<in> set [0..<length (fst st ! (i + 1))]" using k by simp
  show "map (map core) (fst st) = map (map core) cur0" by fact
next
  fix b s s' assume "map (map core) (fst s) = map (map core) cur0" "combineStep i j b s = Inr s'"
  then show "map (map core) (fst s') = map (map core) cur0" by (rule combineStep_core[rotated])
next
  fix s s' assume a: "map (map core) (fst s) = map (map core) cur0" "combineStep i j k s = Inr s'"
  have t1: "term_str (fst s ! i ! j) = term_str (cur0 ! i ! j)"
    by (rule core_term[OF a(1) _ j]) (use i in simp)
  have t2: "term_str (fst s ! (i + 1) ! k) = term_str (cur0 ! Suc i ! k)"
    using core_term[OF a(1) i k] by simp
  show "hasTerm (snd s') i
           (take d (term_str (cur0 ! i ! j)) @ ''-'' @ drop (d + 1) (term_str (cur0 ! i ! j)))"
    using combineStep_hit[OF a(2), of d] d unfolding t1 t2 by simp
next
  fix b s s'
  assume "hasTerm (snd s) i
           (take d (term_str (cur0 ! i ! j)) @ ''-'' @ drop (d + 1) (term_str (cur0 ! i ! j)))"
    "combineStep i j b s = Inr s'"
  then show "hasTerm (snd s') i
           (take d (term_str (cur0 ! i ! j)) @ ''-'' @ drop (d + 1) (term_str (cur0 ! i ! j)))"
    by (rule combineStep_mono[rotated])
qed

lemma loopT1_hit:
  assumes run: "loopT1 i st = Inr st'" and mc: "map (map core) (fst st) = map (map core) cur0"
    and i: "Suc i < length cur0" and j: "j < length (cur0 ! i)" and k: "k < length (cur0 ! Suc i)"
    and d: "diffIndex (term_str (cur0 ! i ! j)) (term_str (cur0 ! Suc i ! k)) = int d"
  shows "hasTerm (snd st') i
           (take d (term_str (cur0 ! i ! j)) @ ''-'' @ drop (d + 1) (term_str (cur0 ! i ! j)))"
proof (rule foldE_hit[OF run[unfolded loopT1_def], where a=j
        and I="\<lambda>s. map (map core) (fst s) = map (map core) cur0"])
  have "length (fst st ! i) = length (cur0 ! i)" using core_lengths(2)[OF mc, of i] i by simp
  then show "j \<in> set [0..<length (fst st ! i)]" using j by simp
  show "map (map core) (fst st) = map (map core) cur0" by fact
next
  fix b s s' assume "map (map core) (fst s) = map (map core) cur0" "loopT2 i b s = Inr s'"
  then show "map (map core) (fst s') = map (map core) cur0" by (rule loopT2_core[rotated])
next
  fix s s' assume a: "map (map core) (fst s) = map (map core) cur0" "loopT2 i j s = Inr s'"
  show "hasTerm (snd s') i
           (take d (term_str (cur0 ! i ! j)) @ ''-'' @ drop (d + 1) (term_str (cur0 ! i ! j)))"
    by (rule loopT2_hit[OF a(2,1) i j k d])
next
  fix b s s'
  assume "hasTerm (snd s) i
           (take d (term_str (cur0 ! i ! j)) @ ''-'' @ drop (d + 1) (term_str (cur0 ! i ! j)))"
    "loopT2 i b s = Inr s'"
  then show "hasTerm (snd s') i
           (take d (term_str (cur0 ! i ! j)) @ ''-'' @ drop (d + 1) (term_str (cur0 ! i ! j)))"
    by (rule loopT2_mono[rotated])
qed

lemma combineRound_hit:
  assumes run: "combineRound V cur0 = Inr st'"
    and i: "Suc i < length cur0" and j: "j < length (cur0 ! i)" and k: "k < length (cur0 ! Suc i)"
    and d: "diffIndex (term_str (cur0 ! i ! j)) (term_str (cur0 ! Suc i ! k)) = int d"
  shows "hasTerm (snd st') i
           (take d (term_str (cur0 ! i ! j)) @ ''-'' @ drop (d + 1) (term_str (cur0 ! i ! j)))"
proof (rule foldE_hit[OF run[unfolded combineRound_def], where a=i
        and I="\<lambda>s. map (map core) (fst s) = map (map core) cur0"])
  show "i \<in> set [0..<length cur0 - 1]" using i by simp
  show "map (map core) (fst (cur0, replicate (V + 1) [])) = map (map core) cur0" by simp
next
  fix b s s' assume "map (map core) (fst s) = map (map core) cur0" "loopT1 b s = Inr s'"
  then show "map (map core) (fst s') = map (map core) cur0" by (rule loopT1_core[rotated])
next
  fix s s' assume a: "map (map core) (fst s) = map (map core) cur0" "loopT1 i s = Inr s'"
  show "hasTerm (snd s') i
           (take d (term_str (cur0 ! i ! j)) @ ''-'' @ drop (d + 1) (term_str (cur0 ! i ! j)))"
    by (rule loopT1_hit[OF a(2,1) i j k d])
next
  fix b s s'
  assume "hasTerm (snd s) i
           (take d (term_str (cur0 ! i ! j)) @ ''-'' @ drop (d + 1) (term_str (cur0 ! i ! j)))"
    "loopT1 b s = Inr s'"
  then show "hasTerm (snd s') i
           (take d (term_str (cur0 ! i ! j)) @ ''-'' @ drop (d + 1) (term_str (cur0 ! i ! j)))"
    by (rule loopT1_mono[rotated])
qed

lemma combineRound_complete:
  assumes comp: "complete S V r cur0" and run: "combineRound V cur0 = Inr st'"
  shows "complete S V (Suc r) (snd st')"
  unfolding complete_def
proof (intro allI impI)
  fix t assume t: "implicantOf S V t \<and> countDashes t = Suc r"
  then have imp: "implicantOf S V t" and cd: "countDashes t = Suc r" by simp_all
  have len: "length t = V" using imp by (simp add: implicantOf_def)
  obtain d where d: "d < length t" "t ! d = CHR ''-''" using dash_position[OF cd] by blast
  have dV: "d < V" using d(1) len by simp
  define t0 where "t0 = t[d := CHR ''0'']"
  define t1 where "t1 = t[d := CHR ''1'']"
  have i0: "implicantOf S V t0" "countDashes t0 = r" "countOnes t0 = countOnes t"
    using subcube[OF imp dV d(2), of "CHR ''0''"] cd by (simp_all add: t0_def)
  have i1: "implicantOf S V t1" "countDashes t1 = r" "countOnes t1 = Suc (countOnes t)"
    using subcube[OF imp dV d(2), of "CHR ''1''"] cd by (simp_all add: t1_def)
  have h0: "hasTerm cur0 (countOnes t) t0" using comp i0 unfolding complete_def by metis
  have h1: "hasTerm cur0 (Suc (countOnes t)) t1" using comp i1 unfolding complete_def by metis
  define i where "i = countOnes t"
  have il: "Suc i < length cur0" using h1 by (simp add: hasTerm_def i_def)
  obtain j where j: "j < length (cur0 ! i)" "term_str (cur0 ! i ! j) = t0"
    using h0 unfolding hasTerm_def i_def by (metis in_set_conv_nth)
  obtain k where k: "k < length (cur0 ! Suc i)" "term_str (cur0 ! Suc i ! k) = t1"
    using h1 unfolding hasTerm_def i_def by (metis in_set_conv_nth)
  have di: "diffIndex t0 t1 = int d"
    by (rule diffIndex_exact) (use d(1) in \<open>simp_all add: t0_def t1_def\<close>)
  have nt: "take d t0 @ ''-'' @ drop (d + 1) t0 = t"
    using newTerm_update[of d t0] d by (simp add: t0_def list_update_same_conv)
  have "hasTerm (snd st') i (take d (term_str (cur0 ! i ! j)) @ ''-'' @
           drop (d + 1) (term_str (cur0 ! i ! j)))"
    by (rule combineRound_hit[OF run il j(1) k(1)]) (simp add: j(2) k(2) di)
  then have "hasTerm (snd st') i t" unfolding j(2) nt .
  then show "hasTerm (snd st') (countOnes t) t" unfolding i_def .
qed

lemma seedGroups_mono:
  assumes "seedGroups V xs gs = Inr gs'" "hasTerm gs i t"
  shows "hasTerm gs' i t"
  using assms
proof (induction xs arbitrary: gs)
  case Nil
  then show ?case by simp
next
  case (Cons m xs)
  define ones where "ones = countOnes (padStart V (CHR ''0'') (toString2 m))"
  define gs1 where "gs1 = gs[ones := gs ! ones @
                      [\<lparr>term_str = padStart V (CHR ''0'') (toString2 m), minterms = [m], isPrime = True\<rparr>]]"
  have ol: "ones < length gs"
    using Cons.prems(1) by (auto simp: Let_def ones_def split: if_splits)
  have step: "seedGroups V xs gs1 = Inr gs'"
    using Cons.prems(1) ol by (simp add: Let_def ones_def gs1_def)
  have "hasTerm gs1 i t" unfolding gs1_def using Cons.prems(2) ol by (simp add: hasTerm_append)
  then show ?case by (rule Cons.IH[OF step])
qed

lemma seedGroups_hit:
  assumes "seedGroups V xs gs = Inr gs'" "m \<in> set xs"
  shows "hasTerm gs' (countOnes (bitsOf V m)) (bitsOf V m)"
  using assms
proof (induction xs arbitrary: gs)
  case Nil
  then show ?case by simp
next
  case (Cons x xs)
  define ones where "ones = countOnes (padStart V (CHR ''0'') (toString2 x))"
  define gs1 where "gs1 = gs[ones := gs ! ones @
                      [\<lparr>term_str = padStart V (CHR ''0'') (toString2 x), minterms = [x], isPrime = True\<rparr>]]"
  have ol: "ones < length gs"
    using Cons.prems(1) by (auto simp: Let_def ones_def split: if_splits)
  have step: "seedGroups V xs gs1 = Inr gs'"
    using Cons.prems(1) ol by (simp add: Let_def ones_def gs1_def)
  show ?case
  proof (cases "m = x")
    case True
    have "hasTerm gs1 (countOnes (bitsOf V m)) (bitsOf V m)"
      unfolding gs1_def using ol True by (simp add: hasTerm_append ones_def bitsOf_def)
    then show ?thesis by (rule seedGroups_mono[OF step])
  next
    case False
    then have "m \<in> set xs" using Cons.prems(2) by simp
    then show ?thesis by (rule Cons.IH[OF step])
  qed
qed

lemma seed_complete:
  assumes "0 < V" "seedGroups V xs gs0 = Inr gs"
  shows "complete (set xs) V 0 gs"
  unfolding complete_def
proof (intro allI impI)
  fix t assume t: "implicantOf (set xs) V t \<and> countDashes t = 0"
  then have cube: "isCube t" and len: "length t = V"
    and imp: "\<forall>m<2 ^ V. holds V t m \<longrightarrow> m \<in> set xs"
    by (simp_all add: implicantOf_def)
  have "set t \<subseteq> {CHR ''0'', CHR ''1''}" using nodash_bits[OF cube] t by simp
  then obtain m where m: "m < 2 ^ V" "bitsOf V m = t" using bitsOf_surj[OF assms(1) len] by blast
  have "holds V t m" using holds_self[OF m(1) assms(1)] m(2) by simp
  then have "m \<in> set xs" using imp m(1) by blast
  then show "hasTerm gs (countOnes t) t" using seedGroups_hit[OF assms(2), of m] m(2) by simp
qed

lemma hasTerm_nonempty:
  assumes "hasTerm gs i t"
  shows "list_ex (\<lambda>g. g \<noteq> []) gs" "\<not> list_all (\<lambda>g. g = []) gs"
proof -
  obtain p where p: "i < length gs" "p \<in> set (gs ! i)" using assms by (auto simp: hasTerm_def)
  have "gs ! i \<in> set gs" "gs ! i \<noteq> []" using p by auto
  then show "list_ex (\<lambda>g. g \<noteq> []) gs" "\<not> list_all (\<lambda>g. g = []) gs"
    unfolding list_ex_iff list_all_iff by blast+
qed

lemma some_cube:
  assumes "r \<le> V" "\<forall>m<2 ^ V. m \<in> S"
  shows "implicantOf S V (replicate r (CHR ''-'') @ replicate (V - r) (CHR ''0''))"
    "countDashes (replicate r (CHR ''-'') @ replicate (V - r) (CHR ''0'')) = r"
    "countOnes (replicate r (CHR ''-'') @ replicate (V - r) (CHR ''0'')) = 0"
  using assms by (auto simp: implicantOf_def isCube_def countDashes_def countOnes_def list_all_iff)

lemma countDashes_le: "countDashes s \<le> length s"
  by (simp add: countDashes_def)

lemma nonempty_member: "\<not> list_all (\<lambda>g. g = []) gs \<Longrightarrow> \<exists>q. q \<in> set (concat gs)"
proof (induction gs)
  case Nil
  then show ?case by simp
next
  case (Cons g gs)
  show ?case
  proof (cases g)
    case Nil
    then have "\<not> list_all (\<lambda>g. g = []) gs" using Cons.prems by simp
    then obtain q where "q \<in> set (concat gs)" using Cons.IH by blast
    then have "q \<in> set (concat (g # gs))" by simp
    then show ?thesis by (rule exI)
  next
    case (Cons a as)
    then have "a \<in> set (concat (g # gs))" by simp
    then show ?thesis by (rule exI)
  qed
qed

lemma primeLoop_full:
  assumes "0 < V" "roundPre S V r cur" "complete S V r cur" "r \<le> V" "\<forall>m<2 ^ V. m \<in> S"
    "primeLoop V cur primes = Inr res"
  shows "\<exists>q\<in>set res. term_str q = replicate V (CHR ''-'')"
  using assms
proof (induction V cur primes arbitrary: r res rule: primeLoop.induct)
  case (1 V cur primes)
  have h0: "hasTerm cur 0 (replicate r (CHR ''-'') @ replicate (V - r) (CHR ''0''))"
    using 1(4) some_cube[OF 1(5,6)] unfolding complete_def by metis
  have True: "list_ex (\<lambda>g. g \<noteq> []) cur" by (rule hasTerm_nonempty(1)[OF h0])
  obtain st' where st': "combineRound V cur = Inr st'" "roundInv S V r cur st'"
    using combineRound_inv[OF 1(2,3)] by blast
  obtain c n where cn: "st' = (c, n)" by (cases st')
  have rnd: "combineRound V cur = Inr (c, n)" and inv: "roundInv S V r cur (c, n)"
    using st' cn by simp_all
  define primes' where "primes' = primes @ filter isPrime (concat c)"
  have mc: "map (map core) c = map (map core) cur" using inv by (simp add: roundInv_def)
  have invn: "\<forall>q\<in>set (concat n). cubeInv S V q \<and> countDashes (term_str q) = Suc r \<and> isPrime q"
    using inv unfolding roundInv_def fst_conv snd_conv by blast
  have invf: "\<forall>p\<in>set (concat c). \<not> isPrime p \<longrightarrow>
                (\<exists>q\<in>set (concat n). set (minterms p) \<subseteq> set (minterms q))"
    using inv unfolding roundInv_def fst_conv snd_conv by blast
  have comp': "complete S V (Suc r) n" using combineRound_complete[OF 1(4) rnd] by simp
  show ?case
  proof (cases "list_all (\<lambda>g. g = []) n")
    case e: True
    have res: "res = primes'"
      using True rnd e 1(7) by (subst (asm) primeLoop.simps) (simp add: primes'_def)
    have rV: "r = V"
    proof (rule ccontr)
      assume "r \<noteq> V"
      then have "Suc r \<le> V" using 1(5) by simp
      then have "hasTerm n 0 (replicate (Suc r) (CHR ''-'') @ replicate (V - Suc r) (CHR ''0''))"
        using comp' some_cube[OF _ 1(6), of "Suc r"] unfolding complete_def by metis
      then show False using hasTerm_nonempty(2) e by blast
    qed
    have hs: "hasTerm cur 0 (replicate V (CHR ''-''))" using h0 rV by simp
    then have l0: "0 < length cur" by (simp add: hasTerm_def)
    obtain j where j: "j < length (cur ! 0)" "term_str (cur ! 0 ! j) = replicate V (CHR ''-'')"
      using hs unfolding hasTerm_def by (metis in_set_conv_nth)
    define q where "q = c ! 0 ! j"
    have tq: "term_str q = replicate V (CHR ''-'')"
      unfolding q_def using core_term[OF mc l0 j(1)] j(2) by simp
    have qin: "q \<in> set (concat c)" unfolding q_def
      by (rule nth_nth_in_concat) (use core_lengths[OF mc] l0 j(1) in auto)
    have emp: "set (concat n) = {}" using e by (rule concat_all_empty)
    have "isPrime q"
    proof (rule ccontr)
      assume "\<not> isPrime q"
      then obtain q' where "q' \<in> set (concat n)" using invf qin by blast
      then show False unfolding emp by simp
    qed
    then have "q \<in> set res" using qin by (simp add: res primes'_def)
    then show ?thesis using tq by blast
  next
    case e: False
    obtain q where q: "q \<in> set (concat n)" using nonempty_member[OF e] by blast
    have "length (term_str q) = V" "countDashes (term_str q) = Suc r"
      using invn q by (auto simp: cubeInv_def)
    then have rV: "Suc r \<le> V" using countDashes_le[of "term_str q"] by simp
    have "length n = V + 1" using inv by (simp add: roundInv_def)
    then have pre': "roundPre S V (Suc r) n"
      unfolding roundPre_def using invn by blast
    have run: "primeLoop V n (primes @ filter isPrime (concat c)) = Inr res"
      using True rnd e 1(7) by (subst (asm) primeLoop.simps) simp
    show ?thesis
      by (rule 1(1)[OF True rnd refl e 1(2) pre' comp' rV 1(6) run])
  qed
qed

lemma qmPrimes_full:
  assumes "0 < V" "\<forall>m\<in>set (ms @ dcs). m < 2 ^ V" "\<forall>m<2 ^ V. m \<in> set (ms @ dcs)"
    "qmPrimes V ms dcs = Inr ups"
  shows "\<exists>q\<in>set ups. term_str q = replicate V (CHR ''-'')"
proof -
  obtain gs where gs: "seedGroups V (ms @ dcs) (replicate (V + 1) []) = Inr gs"
    "roundPre (set (ms @ dcs)) V 0 gs"
    using seedGroups_pre[OF assms(1,2)] by blast
  have comp: "complete (set (ms @ dcs)) V 0 gs" by (rule seed_complete[OF assms(1) gs(1)])
  obtain res where res: "primeLoop V gs [] = Inr res" "ups = snd (uniqueByTerm res ([], []))"
    using assms(4) unfolding qmPrimes_def gs(1) by (auto split: sum.splits)
  obtain q where q: "q \<in> set res" "term_str q = replicate V (CHR ''-'')"
    using primeLoop_full[OF assms(1) gs(2) comp _ assms(3) res(1)] by auto
  have "\<forall>p\<in>set [] \<union> set res. \<exists>q\<in>set ups. term_str q = term_str p"
    using uniqueByTerm_inv[of "[]" "[]" res] unfolding res(2) by simp
  then show ?thesis using q by fastforce
qed

lemma holds_allDash:
  assumes "m < 2 ^ V" "0 < V"
  shows "holds V (replicate V (CHR ''-'')) m"
  using bitsOf_props(1)[OF assms] by (simp add: holds_def cubeMatches_nth)

section \<open>Totality, coverage, essential primes and cube sizes\<close>

lemma validInput_props:
  assumes "validInput V ms dcs"
  shows "0 < V" "2 \<le> V" "V \<le> 5" "\<forall>m\<in>set (ms @ dcs). m < 2 ^ V" "distinct (ms @ dcs)"
  using assms by (auto simp: validInput_def list_all_iff)

lemma validInput_zeros:
  assumes "validInput V ms dcs"
  shows "validInput V (zerosOf V ms dcs) dcs"
  using assms zerosOf_distinct[of V ms dcs]
  by (auto simp: validInput_def list_all_iff zerosOf_set)

lemma qmCover_props:
  assumes "\<forall>m\<in>set ms. \<exists>p\<in>set ups. m \<in> set (minterms p)"
  shows "fst (qmCover ups ms) = []" "set (snd (qmCover ups ms)) \<subseteq> set ups"
    "\<forall>m\<in>set ms. \<exists>p\<in>set (snd (qmCover ups ms)). m \<in> set (minterms p)"
proof -
  have i0: "coverInv ups ms (ms, [])" by (simp add: coverInv_def)
  have i1: "coverInv ups ms (essentialLoop ups ms True (ms, []))"
    by (rule essentialLoop_inv[OF i0])
  have i2: "coverInv ups ms (qmCover ups ms)"
    unfolding qmCover_def by (rule greedyLoop_inv[OF i1])
  show e: "fst (qmCover ups ms) = []"
    unfolding qmCover_def by (rule greedyLoop_done[OF i1 assms])
  show "set (snd (qmCover ups ms)) \<subseteq> set ups" using i2 by (simp add: coverInv_def)
  have "set ms - (\<Union>p\<in>set (snd (qmCover ups ms)). set (minterms p)) = {}"
    using i2 e by (simp add: coverInv_def)
  then show "\<forall>m\<in>set ms. \<exists>p\<in>set (snd (qmCover ups ms)). m \<in> set (minterms p)" by blast
qed

lemma runQM_main:
  assumes "ms \<noteq> []" "length ms + length dcs \<noteq> 2 ^ V" "qmPrimes V ms dcs = Inr ups"
  shows "runQM V ms dcs =
     Inr \<lparr>qm_expression =
            (if join '' + '' (map (\<lambda>p. formatTerm (term_str p) (varNames V)) (snd (qmCover ups ms))) = []
             then ''0''
             else join '' + '' (map (\<lambda>p. formatTerm (term_str p) (varNames V)) (snd (qmCover ups ms)))),
          qm_groups = map minterms (snd (qmCover ups ms)),
          qm_terms = map term_str (snd (qmCover ups ms))\<rparr>"
  using assms by (simp add: runQM_def Let_def)

lemma runQM_total:
  assumes "validInput V ms dcs"
  shows "\<exists>sol. runQM V ms dcs = Inr sol"
proof -
  note vp = validInput_props[OF assms]
  obtain ups where "qmPrimes V ms dcs = Inr ups" using qmPrimes_inv[OF vp(1,4)] by blast
  then show ?thesis by (simp add: runQM_def Let_def)
qed

text \<open>
  Claim C6. For a valid input (between two and five variables, two disjoint sets of
  positions below \<open>2 ^ V\<close>), in either form, \<open>solveCustom\<close> returns a result and raises no
  exception; the prime implicants for the required positions are computed without an
  exception, and the covering loops end with no required position left: the greedy loop
  never leaves through its \<open>break\<close>, and every required position lies in a chosen prime.
  (Every loop of the model is a total function with a termination proof.)
\<close>

theorem solveCustom_total:
  assumes "validInput V ms dcs"
  shows "(\<exists>r. solveCustom V ms dcs isSop = Inr r) \<and>
         (\<exists>ups. qmPrimes V (requiredOf V ms dcs isSop) dcs = Inr ups \<and>
                fst (qmCover ups (requiredOf V ms dcs isSop)) = [] \<and>
                (\<forall>m\<in>set (requiredOf V ms dcs isSop).
                    \<exists>p\<in>set (snd (qmCover ups (requiredOf V ms dcs isSop))). m \<in> set (minterms p)))"
proof -
  define req where "req = requiredOf V ms dcs isSop"
  have v: "validInput V req dcs"
    unfolding req_def requiredOf_def using assms validInput_zeros[OF assms] by simp
  note vp = validInput_props[OF v]
  obtain sol where sol: "runQM V req dcs = Inr sol" using runQM_total[OF v] by blast
  have r: "\<exists>r. solveCustom V ms dcs isSop = Inr r"
  proof (cases isSop)
    case True
    then show ?thesis using sol by (simp add: solveCustom_def req_def requiredOf_def)
  next
    case False
    then show ?thesis using sol by (simp add: solveCustom_def req_def requiredOf_def Let_def)
  qed
  obtain ups where ups: "qmPrimes V req dcs = Inr ups"
    "\<forall>m\<in>set (req @ dcs). \<exists>p\<in>set ups. m \<in> set (minterms p)"
    using qmPrimes_inv[OF vp(1,4)] by blast
  have cov: "\<forall>m\<in>set req. \<exists>p\<in>set ups. m \<in> set (minterms p)" using ups(2) by simp
  show ?thesis unfolding req_def[symmetric]
    using r ups(1) qmCover_props(1)[OF cov] qmCover_props(3)[OF cov] by blast
qed

theorem solveCustom_total_witness:
  "validInput 3 [0, 1, 2, 5, 6, 7] [] \<and>
   (\<exists>r. solveCustom 3 [0, 1, 2, 5, 6, 7] [] True = Inr r) \<and>
   (\<exists>ups. qmPrimes 3 (requiredOf 3 [0, 1, 2, 5, 6, 7] [] True) [] = Inr ups \<and>
          fst (qmCover ups (requiredOf 3 [0, 1, 2, 5, 6, 7] [] True)) = [])"
proof -
  have v: "validInput 3 [0, 1, 2, 5, 6, 7] []" by (simp add: validInput_def)
  show ?thesis using v solveCustom_total[OF v, of True] by blast
qed

lemma solveCustom_sop:
  "solveCustom V ms dcs True =
     (case runQM V ms dcs of Inl e \<Rightarrow> Inl e
      | Inr sol \<Rightarrow> Inr \<lparr>expression = qm_expression sol, essentials = qm_groups sol\<rparr>)"
  by (simp add: solveCustom_def)

lemma full_space:
  assumes "distinct xs" "\<forall>m\<in>set xs. m < (2::nat) ^ V" "length xs = 2 ^ V"
  shows "set xs = {0..<2 ^ V}"
proof (rule card_subset_eq)
  show "finite {0..<(2::nat) ^ V}" by simp
  show "set xs \<subseteq> {0..<2 ^ V}" using assms(2) by auto
  show "card (set xs) = card {0..<(2::nat) ^ V}" using assms(1,3) by (simp add: distinct_card)
qed

text \<open>
  Claim C3, as amended: for a valid input in SOP form, the union of the groups returned by
  \<open>solveCustom\<close> holds every position of the true set and only positions of the true set
  or the don't-care set. (The claim as written has the union equal to the true set; a
  returned group may hold don't-care positions.)
\<close>

theorem solveCustom_groups_cover:
  assumes "validInput V ms dcs"
  shows "\<exists>r. solveCustom V ms dcs True = Inr r \<and>
             set ms \<subseteq> \<Union> (set ` set (essentials r)) \<and>
             \<Union> (set ` set (essentials r)) \<subseteq> set ms \<union> set dcs"
proof -
  note vp = validInput_props[OF assms]
  show ?thesis
  proof (cases "ms = []")
    case True
    then show ?thesis by (simp add: solveCustom_sop runQM_def)
  next
    case ne: False
    show ?thesis
    proof (cases "length ms + length dcs = 2 ^ V")
      case True
      then show ?thesis using ne by (auto simp: solveCustom_sop runQM_def)
    next
      case False
      obtain ups where ups: "qmPrimes V ms dcs = Inr ups"
        "\<forall>p\<in>set ups. cubeInv (set (ms @ dcs)) V p"
        "\<forall>m\<in>set (ms @ dcs). \<exists>p\<in>set ups. m \<in> set (minterms p)"
        using qmPrimes_inv[OF vp(1,4)] by blast
      have cov: "\<forall>m\<in>set ms. \<exists>p\<in>set ups. m \<in> set (minterms p)" using ups(3) by simp
      define fin where "fin = snd (qmCover ups ms)"
      have f1: "set fin \<subseteq> set ups" unfolding fin_def by (rule qmCover_props(2)[OF cov])
      have f2: "\<forall>m\<in>set ms. \<exists>p\<in>set fin. m \<in> set (minterms p)"
        unfolding fin_def by (rule qmCover_props(3)[OF cov])
      have f3: "\<forall>p\<in>set fin. set (minterms p) \<subseteq> set ms \<union> set dcs"
        using f1 ups(2) by (auto simp: cubeInv_def)
      have "\<exists>sol. runQM V ms dcs = Inr sol \<and> qm_groups sol = map minterms fin"
        unfolding fin_def runQM_main[OF ne False ups(1)] by simp
      then obtain sol where sol: "runQM V ms dcs = Inr sol" "qm_groups sol = map minterms fin"
        by blast
      have "solveCustom V ms dcs True =
              Inr \<lparr>expression = qm_expression sol, essentials = map minterms fin\<rparr>"
        by (simp add: solveCustom_sop sol)
      moreover have "set ms \<subseteq> \<Union> (set ` set (map minterms fin))" using f2 by auto
      moreover have "\<Union> (set ` set (map minterms fin)) \<subseteq> set ms \<union> set dcs" using f3 by auto
      ultimately show ?thesis by simp
    qed
  qed
qed

theorem solveCustom_groups_cover_witness:
  "validInput 2 [0] [1] \<and>
   (\<exists>r. solveCustom 2 [0] [1] True = Inr r \<and>
        set [0] \<subseteq> \<Union> (set ` set (essentials r)) \<and>
        \<Union> (set ` set (essentials r)) \<subseteq> set [0] \<union> set [1])"
proof -
  have v: "validInput 2 [0] [1]" by (simp add: validInput_def)
  show ?thesis using v solveCustom_groups_cover[OF v] by blast
qed

text \<open>
  With the true set \<open>{0}\<close> and the don't-care set \<open>{1}\<close> on two variables the one returned
  group is \<open>[0, 1]\<close>: it holds the don't-care position \<open>1\<close>.
\<close>

theorem solveCustom_groups_counterexample:
  "solveCustom 2 [0] [1] True =
     Inr \<lparr>expression = ''x_0'' @ [CHR 0x27], essentials = [[0, 1]]\<rparr> \<and>
   \<Union> (set ` set [[0, 1 :: nat]]) \<noteq> set [0]"
proof -
  have "solveCustom 2 [0] [1] True =
     Inr \<lparr>expression = ''x_0'' @ [CHR 0x27], essentials = [[0, 1]]\<rparr>" by code_simp
  moreover have "\<Union> (set ` set [[0, 1 :: nat]]) \<noteq> set [0]" by auto
  ultimately show ?thesis by blast
qed

lemma concat_single:
  assumes "distinct xs" "p \<in> set xs"
  shows "concat (map (\<lambda>q. if q = p then [p] else []) xs) = [p]"
  using assms
proof (induction xs)
  case Nil
  then show ?case by simp
next
  case (Cons a xs)
  show ?case
  proof (cases "a = p")
    case True
    then have "p \<notin> set xs" using Cons.prems(1) by simp
    then have "concat (map (\<lambda>q. if q = p then [p] else []) xs) = []"
      by (induction xs) auto
    then show ?thesis using True by simp
  next
    case False
    then show ?thesis using Cons by auto
  qed
qed

lemma count_list_distinct: "distinct xs \<Longrightarrow> x \<in> set xs \<Longrightarrow> count_list xs x = 1"
  by (induction xs) auto

lemma coverage_only_prime:
  assumes "distinct ups" "p \<in> set ups" "m \<in> set ms" "m \<in> set (minterms p)"
    "distinct (minterms p)" "\<forall>q\<in>set ups. m \<in> set (minterms q) \<longrightarrow> q = p"
  shows "buildCoverage ups ms m = Some [p]"
proof -
  have eq: "map (\<lambda>q. replicate (count_list (minterms q) m) q) ups
        = map (\<lambda>q. if q = p then [p] else []) ups"
  proof (rule map_cong[OF refl])
    fix q assume q: "q \<in> set ups"
    show "replicate (count_list (minterms q) m) q = (if q = p then [p] else [])"
    proof (cases "q = p")
      case True
      have "count_list (minterms p) m = 1"
        using assms(4,5) by (simp add: count_list_distinct)
      then show ?thesis using True by simp
    next
      case False
      then have "m \<notin> set (minterms q)" using assms(6) q by blast
      then show ?thesis using False by (simp add: count_list_0_iff)
    qed
  qed
  show ?thesis unfolding buildCoverage_eq eq concat_single[OF assms(1,2)] using assms(3) by simp
qed

lemma essential_in_cover:
  assumes "distinct ups" "p \<in> set ups" "m \<in> set ms" "m \<in> set (minterms p)"
    "distinct (minterms p)" "\<forall>q\<in>set ups. m \<in> set (minterms q) \<longrightarrow> q = p"
  shows "p \<in> set (snd (qmCover ups ms))"
proof -
  define ne where "ne = newEssentialPIs (buildCoverage ups ms) (fst (ms, []::Implicant list))"
  have cov: "buildCoverage ups ms m = Some [p]" by (rule coverage_only_prime[OF assms])
  have "m \<in> set (essentialPositions (buildCoverage ups ms) ms)"
    using assms(3) cov by (simp add: essentialPositions_def)
  then have "hd (the (buildCoverage ups ms m)) \<in> set ne"
    unfolding ne_def newEssentialPIs_def set_setAddAll by auto
  then have pne: "p \<in> set ne" using cov by simp
  then have nn: "ne \<noteq> []" by auto
  have msne: "ms \<noteq> []" using assms(3) by auto
  have "essentialLoop ups ms True (ms, []) = essentialLoop ups ms True (fold takePI ne (ms, []))"
    using nn msne by (subst essentialLoop.simps) (simp add: ne_def Let_def)
  moreover have "p \<in> set (snd (fold takePI ne (ms, [])))" using pne by (simp add: snd_fold_takePI)
  ultimately have "p \<in> set (snd (essentialLoop ups ms True (ms, [])))"
    using essentialLoop_mono[of "fold takePI ne (ms, [])" ups ms True] by auto
  then show ?thesis unfolding qmCover_def using greedyLoop_mono by blast
qed

text \<open>
  Claim C4. For a valid input in SOP form, let \<open>ups\<close> be the deduplicated prime implicants
  of the Quine-McCluskey rounds (\<open>qmPrimes\<close>). If a prime \<open>p\<close> of \<open>ups\<close> is the only one
  holding some position of the true set, then the set of positions of \<open>p\<close> is the set of
  one of the groups that \<open>solveCustom\<close> returns. When the true set and the don't-care set
  do not fill the whole space, \<open>runQM\<close> gets to its covering loops: there \<open>p\<close> is among the
  primes they choose and its list of positions is one of the returned groups. When the two
  sets fill the whole space, \<open>p\<close> is the all-dash cube and the single returned group holds
  its positions.
\<close>

theorem essential_primes_selected:
  assumes "validInput V ms dcs" "qmPrimes V ms dcs = Inr ups"
    and "p \<in> set ups" "m \<in> set ms" "m \<in> set (minterms p)"
    and "\<forall>q\<in>set ups. m \<in> set (minterms q) \<longrightarrow> q = p"
  shows "\<exists>r. solveCustom V ms dcs True = Inr r \<and>
           (\<exists>g. g \<in> set (essentials r) \<and> set g = set (minterms p)) \<and>
           (length ms + length dcs \<noteq> 2 ^ V \<longrightarrow>
              p \<in> set (snd (qmCover ups ms)) \<and> minterms p \<in> set (essentials r))"
proof -
  note vp = validInput_props[OF assms(1)]
  obtain ups' where u: "qmPrimes V ms dcs = Inr ups'"
    "\<forall>p\<in>set ups'. cubeInv (set (ms @ dcs)) V p" "distinct (map term_str ups')"
    using qmPrimes_inv[OF vp(1,4)] by blast
  have e: "ups' = ups" using u(1) assms(2) by simp
  have ci: "\<forall>p\<in>set ups. cubeInv (set (ms @ dcs)) V p" using u(2) e by simp
  have d: "distinct ups" using u(3) e by (simp add: distinct_map)
  have dm: "distinct (minterms p)" using ci assms(3) by (auto simp: cubeInv_def strict_sorted_iff)
  have ne: "ms \<noteq> []" using assms(4) by auto
  have mV: "m < 2 ^ V" using vp(4) assms(4) by simp
  show ?thesis
  proof (cases "length ms + length dcs = 2 ^ V")
    case True
    have "length (ms @ dcs) = 2 ^ V" using True by simp
    then have fs: "set (ms @ dcs) = {0..<2 ^ V}" by (rule full_space[OF vp(5,4)])
    then have all: "\<forall>m<2 ^ V. m \<in> set (ms @ dcs)" by simp
    obtain q where q: "q \<in> set ups" "term_str q = replicate V (CHR ''-'')"
      using qmPrimes_full[OF vp(1,4) all assms(2)] by blast
    have sq: "set (minterms q) = {m. m < 2 ^ V \<and> holds V (term_str q) m}"
      using ci q(1) by (simp add: cubeInv_def)
    have qa: "set (minterms q) = {0..<2 ^ V}"
      unfolding sq q(2) using holds_allDash[OF _ vp(1)] by auto
    have "m \<in> set (minterms q)" unfolding qa using mV by simp
    then have "q = p" using assms(6) q(1) by blast
    then have sp: "set (ms @ dcs) = set (minterms p)" using qa fs by simp
    have "solveCustom V ms dcs True =
            Inr \<lparr>expression = ''1'', essentials = [ms @ dcs]\<rparr>"
      unfolding solveCustom_sop using ne True by (simp add: runQM_def)
    then show ?thesis using sp True by simp
  next
    case False
    have sel: "p \<in> set (snd (qmCover ups ms))"
      by (rule essential_in_cover[OF d assms(3,4,5) dm assms(6)])
    have "\<exists>r. solveCustom V ms dcs True = Inr r \<and> minterms p \<in> set (essentials r)"
      unfolding solveCustom_sop runQM_main[OF ne False assms(2)] using sel by simp
    then show ?thesis using sel by blast
  qed
qed

theorem essential_primes_selected_witness:
  "validInput 3 [0, 1, 5, 7] [] \<and>
   (\<exists>r. solveCustom 3 [0, 1, 5, 7] [] True = Inr r \<and> [0, 1] \<in> set (essentials r)) \<and>
   validInput 2 [1, 2, 3] [0] \<and>
   (\<exists>r. solveCustom 2 [1, 2, 3] [0] True = Inr r \<and>
        (\<exists>g. g \<in> set (essentials r) \<and> set g = {0, 1, 2, 3}))"
proof -
  have v: "validInput 3 [0, 1, 5, 7] []" by (simp add: validInput_def)
  have q: "qmPrimes 3 [0, 1, 5, 7] [] =
     Inr [\<lparr>term_str = ''00-'', minterms = [0, 1], isPrime = True\<rparr>,
          \<lparr>term_str = ''-01'', minterms = [1, 5], isPrime = True\<rparr>,
          \<lparr>term_str = ''1-1'', minterms = [5, 7], isPrime = True\<rparr>]" by code_simp
  have a: "\<exists>r. solveCustom 3 [0, 1, 5, 7] [] True = Inr r \<and> [0, 1] \<in> set (essentials r)"
    using essential_primes_selected[OF v q, of "\<lparr>term_str = ''00-'', minterms = [0, 1], isPrime = True\<rparr>" 0]
    by auto
  have v2: "validInput 2 [1, 2, 3] [0]" by (simp add: validInput_def)
  have q2: "qmPrimes 2 [1, 2, 3] [0] =
     Inr [\<lparr>term_str = ''--'', minterms = [0, 1, 2, 3], isPrime = True\<rparr>]" by code_simp
  have b: "\<exists>r. solveCustom 2 [1, 2, 3] [0] True = Inr r \<and>
        (\<exists>g. g \<in> set (essentials r) \<and> set g = {0, 1, 2, 3})"
    using essential_primes_selected[OF v2 q2, of "\<lparr>term_str = ''--'', minterms = [0, 1, 2, 3], isPrime = True\<rparr>" 1]
    by auto
  show ?thesis using v a v2 b by blast
qed

lemma cubeInv_card: "cubeInv S V p \<Longrightarrow> cubeCardOK V p"
  by (auto simp: cubeInv_def cubeCardOK_def list_all_iff)

lemma nthRound_pre:
  assumes "0 < V" "roundPre S V 0 gs" "nthRound V gs k = Some cur"
  shows "roundPre S V k cur"
  using assms(3)
proof (induction k arbitrary: cur)
  case 0
  then show ?case using assms(2) by simp
next
  case (Suc k)
  from Suc.prems obtain prev where prev: "nthRound V gs k = Some prev"
    by (auto split: option.splits)
  have pre: "roundPre S V k prev" by (rule Suc.IH[OF prev])
  obtain st' where st': "combineRound V prev = Inr st'" "roundInv S V k prev st'"
    using combineRound_inv[OF assms(1) pre] by blast
  obtain c n where cn: "st' = (c, n)" by (cases st')
  have "cur = n" using Suc.prems prev st'(1) cn by (auto split: if_splits)
  moreover have "roundPre S V (Suc k) n"
    using st'(2) unfolding cn roundPre_def roundInv_def fst_conv snd_conv by blast
  ultimately show ?case by simp
qed

text \<open>
  Claim C9, as amended: for a valid input, every implicant built inside \<open>runQM\<close> (each seed
  cube, and each cube of the groups at the head of pass \<open>k\<close>, which has \<open>k\<close> dashes), hence
  every group returned by the covering phase, holds exactly \<open>2 ^ k\<close> positions for \<open>k\<close> dashes
  in its cube string, listed in strictly increasing order and all below \<open>2 ^ V\<close>. The one
  group of the full-space early return is the true positions followed by the don't-care
  positions as they were given: \<open>2 ^ V\<close> different positions below \<open>2 ^ V\<close>, not necessarily
  in increasing order. (The claim as written has every returned group strictly increasing.)
\<close>

theorem cube_cardinality:
  assumes "validInput V ms dcs"
  shows "(\<exists>gs. seedGroups V (ms @ dcs) (replicate (V + 1) []) = Inr gs \<and>
            (\<forall>k cur. nthRound V gs k = Some cur \<longrightarrow>
               (\<forall>p\<in>set (concat cur). cubeCardOK V p \<and> countDashes (term_str p) = k))) \<and>
         (ms \<noteq> [] \<and> length ms + length dcs \<noteq> 2 ^ V \<longrightarrow>
            (\<exists>sol fin. runQM V ms dcs = Inr sol \<and> qm_groups sol = map minterms fin \<and>
               qm_terms sol = map term_str fin \<and> (\<forall>p\<in>set fin. cubeCardOK V p))) \<and>
         (ms \<noteq> [] \<and> length ms + length dcs = 2 ^ V \<longrightarrow>
            runQM V ms dcs =
              Inr \<lparr>qm_expression = ''1'', qm_groups = [ms @ dcs],
                   qm_terms = [replicate V (CHR ''-'')]\<rparr> \<and>
            length (ms @ dcs) = 2 ^ countDashes (replicate V (CHR ''-'')) \<and>
            distinct (ms @ dcs) \<and> list_all (\<lambda>m. m < 2 ^ V) (ms @ dcs))"
proof (intro conjI impI)
  note vp = validInput_props[OF assms]
  obtain gs where gs: "seedGroups V (ms @ dcs) (replicate (V + 1) []) = Inr gs"
    "roundPre (set (ms @ dcs)) V 0 gs"
    using seedGroups_pre[OF vp(1,4)] by blast
  have "\<forall>k cur. nthRound V gs k = Some cur \<longrightarrow>
               (\<forall>p\<in>set (concat cur). cubeCardOK V p \<and> countDashes (term_str p) = k)"
  proof (intro allI impI ballI)
    fix k cur p assume a: "nthRound V gs k = Some cur" "p \<in> set (concat cur)"
    have "roundPre (set (ms @ dcs)) V k cur" by (rule nthRound_pre[OF vp(1) gs(2) a(1)])
    then show "cubeCardOK V p \<and> countDashes (term_str p) = k"
      using a(2) cubeInv_card unfolding roundPre_def by blast
  qed
  then show "\<exists>gs. seedGroups V (ms @ dcs) (replicate (V + 1) []) = Inr gs \<and>
            (\<forall>k cur. nthRound V gs k = Some cur \<longrightarrow>
               (\<forall>p\<in>set (concat cur). cubeCardOK V p \<and> countDashes (term_str p) = k))"
    using gs(1) by blast
next
  note vp = validInput_props[OF assms]
  assume a: "ms \<noteq> [] \<and> length ms + length dcs \<noteq> 2 ^ V"
  obtain ups where ups: "qmPrimes V ms dcs = Inr ups"
    "\<forall>p\<in>set ups. cubeInv (set (ms @ dcs)) V p"
    "\<forall>m\<in>set (ms @ dcs). \<exists>p\<in>set ups. m \<in> set (minterms p)"
    using qmPrimes_inv[OF vp(1,4)] by blast
  have cov: "\<forall>m\<in>set ms. \<exists>p\<in>set ups. m \<in> set (minterms p)" using ups(3) by simp
  have ok: "\<forall>p\<in>set (snd (qmCover ups ms)). cubeCardOK V p"
    using qmCover_props(2)[OF cov] ups(2) cubeInv_card by blast
  have "\<exists>sol. runQM V ms dcs = Inr sol \<and> qm_groups sol = map minterms (snd (qmCover ups ms)) \<and>
               qm_terms sol = map term_str (snd (qmCover ups ms))"
    unfolding runQM_main[OF conjunct1[OF a] conjunct2[OF a] ups(1)] by simp
  then show "\<exists>sol fin. runQM V ms dcs = Inr sol \<and> qm_groups sol = map minterms fin \<and>
               qm_terms sol = map term_str fin \<and> (\<forall>p\<in>set fin. cubeCardOK V p)"
    using ok by blast
next
  assume a: "ms \<noteq> [] \<and> length ms + length dcs = 2 ^ V"
  then show "runQM V ms dcs =
              Inr \<lparr>qm_expression = ''1'', qm_groups = [ms @ dcs],
                   qm_terms = [replicate V (CHR ''-'')]\<rparr>"
    by (simp add: runQM_def)
next
  assume a: "ms \<noteq> [] \<and> length ms + length dcs = 2 ^ V"
  then show "length (ms @ dcs) = 2 ^ countDashes (replicate V (CHR ''-''))"
    by (simp add: countDashes_def)
next
  show "distinct (ms @ dcs)" using validInput_props(5)[OF assms] .
next
  show "list_all (\<lambda>m. m < 2 ^ V) (ms @ dcs)" using assms by (simp add: validInput_def)
qed

theorem cube_cardinality_witness:
  "validInput 2 [1, 3] [] \<and>
   (\<exists>sol fin. runQM 2 [1, 3] [] = Inr sol \<and> qm_groups sol = map minterms fin \<and>
       qm_terms sol = map term_str fin \<and> list_all (cubeCardOK 2) fin)"
proof -
  have v: "validInput 2 [1, 3] []" by (simp add: validInput_def)
  have h: "[1, 3 :: nat] \<noteq> [] \<and> length [1, 3 :: nat] + length ([] :: nat list) \<noteq> 2 ^ 2" by simp
  have "\<exists>sol fin. runQM 2 [1, 3] [] = Inr sol \<and> qm_groups sol = map minterms fin \<and>
       qm_terms sol = map term_str fin \<and> (\<forall>p\<in>set fin. cubeCardOK 2 p)"
    using cube_cardinality[OF v] h by blast
  then show ?thesis using v by (simp add: list_all_iff)
qed

text \<open>
  With the true set \<open>{1, 2, 3}\<close> and the don't-care set \<open>{0}\<close> on two variables, the one
  returned group is \<open>[1, 2, 3, 0]\<close>, which is not in increasing order.
\<close>

theorem returned_group_order_counterexample:
  "solveCustom 2 [1, 2, 3] [0] True = Inr \<lparr>expression = ''1'', essentials = [[1, 2, 3, 0]]\<rparr> \<and>
   \<not> sorted_wrt (<) [1, 2, 3, 0 :: nat]"
  by (simp add: solveCustom_def runQM_def)

section \<open>Soundness of the returned expression\<close>

lemma clean_simps [simp]:
  "clean []" "clean (c # cs) \<longleftrightarrow> \<not> isDigit c"
  by (simp_all add: clean_def)

lemma digitChar_props:
  assumes "i < 10"
  shows "isDigit (digitChar i)" "digitVal (digitChar i) = i"
proof -
  have o: "of_char (digitChar i) = 48 + i" using assms by (simp add: digitChar_def)
  show "isDigit (digitChar i)" using assms o by (simp add: isDigit_def isDigitR_def)
  show "digitVal (digitChar i) = i" using o by (simp add: digitVal_def)
qed

lemma natToString_small: "i < 10 \<Longrightarrow> natToString i = [digitChar i]"
  by (subst natToString.simps) simp

lemma varNames_nth: "i < V \<Longrightarrow> varNames V ! i = ''x_'' @ natToString i"
  by (simp add: varNames_def)

lemma length_varNames [simp]: "length (varNames V) = V"
  by (simp add: varNames_def)

lemma not_digit_chars [simp]:
  "\<not> isDigit (CHR ''x'')" "\<not> isDigit (CHR '' '')" "\<not> isDigit (CHR '')'')" "\<not> isDigit (CHR 0x27)"
  "\<not> isDigit (CHR ''+'')"
  by (simp_all add: isDigit_def isDigitR_def)

lemma takeWhile_digit:
  assumes "i < 10" "clean rest"
  shows "takeWhile isDigit (digitChar i # rest) = [digitChar i]"
    "dropWhile isDigit (digitChar i # rest) = rest"
  using assms digitChar_props(1)[OF assms(1)] by (cases rest; simp)+

lemma clean_takeWhile:
  assumes "clean rest"
  shows "takeWhile isDigit rest = []" "dropWhile isDigit rest = rest"
  using assms by (cases rest; simp)+

lemma tokenize_var:
  assumes "i < 10" "clean rest"
  shows "tokenize (''x_'' @ natToString i @ rest) = TVar i # tokenize rest"
proof -
  have "tokenize (CHR ''x'' # CHR ''_'' # digitChar i # rest) =
        TVar (digitsVal 10 (takeWhile isDigit (digitChar i # rest))) #
          tokenize (dropWhile isDigit (digitChar i # rest))"
    by (subst tokenize.simps(2)) (simp add: takeWhile_digit[OF assms] digitChar_props(1)[OF assms(1)])
  then show ?thesis
    using assms
    by (simp add: natToString_small clean_takeWhile digitsVal_def digitChar_props)
qed

lemma tokenize_prime: "tokenize (CHR 0x27 # rest) = TPrime # tokenize rest"
  by (subst tokenize.simps(2)) simp

lemma tokenize_sep: "tokenize ('' + '' @ rest) = TPlus # tokenize rest"
  by (simp add: tokenize.simps(2))

lemma tokenize_open: "tokenize (CHR ''('' # rest) = TOpen # tokenize rest"
  by (subst tokenize.simps(2)) simp

lemma tokenize_close: "tokenize (CHR '')'' # rest) = TClose # tokenize rest"
  by (subst tokenize.simps(2)) simp

lemma tokenize_one: "tokenize (CHR ''1'' # rest) = TConst True # tokenize rest"
  by (subst tokenize.simps(2)) simp

lemma tokenize_zero: "tokenize (CHR ''0'' # rest) = TConst False # tokenize rest"
  by (subst tokenize.simps(2)) simp

lemma tokenize_sopLiteral:
  assumes "i < V" "V \<le> 10" "clean rest"
  shows "tokenize (sopLiteral c (varNames V ! i) @ rest) = litTok c i @ tokenize rest"
proof -
  have i10: "i < 10" using assms by simp
  have c1: "clean (CHR 0x27 # rest)" by simp
  show ?thesis
    using tokenize_var[OF i10 assms(3)] tokenize_var[OF i10 c1] tokenize_prime[of rest]
    by (simp add: sopLiteral_def litTok_def varNames_nth[OF assms(1)])
qed

lemma clean_sopLiteral:
  assumes "i < V" "clean rest"
  shows "clean (sopLiteral c (varNames V ! i) @ rest)"
  using assms by (simp add: sopLiteral_def varNames_nth)

lemma clean_lits:
  assumes "\<forall>j\<in>set js. j < V" "clean rest"
  shows "clean (concat (map (\<lambda>i. sopLiteral (t ! i) (varNames V ! i)) js) @ rest)"
  using assms by (induction js) (simp_all add: clean_sopLiteral)

lemma tokenize_lits:
  assumes "\<forall>j\<in>set js. j < V" "V \<le> 10" "clean rest"
  shows "tokenize (concat (map (\<lambda>i. sopLiteral (t ! i) (varNames V ! i)) js) @ rest)
         = concat (map (\<lambda>i. litTok (t ! i) i) js) @ tokenize rest"
  using assms(1)
proof (induction js)
  case Nil
  show ?case by simp
next
  case (Cons j js)
  have j: "j < V" and js: "\<forall>j\<in>set js. j < V" using Cons.prems by auto
  have cl: "clean (concat (map (\<lambda>i. sopLiteral (t ! i) (varNames V ! i)) js) @ rest)"
    by (rule clean_lits[OF js assms(3)])
  have "tokenize (concat (map (\<lambda>i. sopLiteral (t ! i) (varNames V ! i)) (j # js)) @ rest)
        = tokenize (sopLiteral (t ! j) (varNames V ! j) @
             (concat (map (\<lambda>i. sopLiteral (t ! i) (varNames V ! i)) js) @ rest))" by simp
  also have "\<dots> = litTok (t ! j) j @
             tokenize (concat (map (\<lambda>i. sopLiteral (t ! i) (varNames V ! i)) js) @ rest)"
    by (rule tokenize_sopLiteral[OF j assms(2) cl])
  also have "\<dots> = concat (map (\<lambda>i. litTok (t ! i) i) (j # js)) @ tokenize rest"
    using Cons.IH[OF js] by simp
  finally show ?case .
qed

lemma tokenize_formatTerm:
  assumes "isCube t" "length t = V" "V \<le> 10" "clean rest"
  shows "tokenize (formatTerm t (varNames V) @ rest) = termTokens t @ tokenize rest"
proof -
  have f: "formatTerm t (varNames V) = sopTermSpec t (varNames V)"
    by (rule formatTerm_sopTermSpec[OF assms(1)]) (simp add: assms(2))
  show ?thesis
  proof (cases "list_all (\<lambda>c. c = CHR ''-'') t")
    case True
    then show ?thesis unfolding f by (simp add: sopTermSpec_def termTokens_def tokenize_one)
  next
    case False
    have "tokenize (concat (map (\<lambda>i. sopLiteral (t ! i) (varNames V ! i)) [0..<length t]) @ rest)
          = concat (map (\<lambda>i. litTok (t ! i) i) [0..<length t]) @ tokenize rest"
      by (rule tokenize_lits[OF _ assms(3,4)]) (simp add: assms(2))
    then show ?thesis unfolding f using False by (simp add: sopTermSpec_def termTokens_def)
  qed
qed

lemma lits_head:
  "concat (map (\<lambda>i. litTok (t ! i) i) js) = [] \<or>
   (\<exists>i R. concat (map (\<lambda>i. litTok (t ! i) i) js) = TVar i # R)"
  by (induction js) (auto simp: litTok_def)

lemma evalProduct_var:
  assumes "R = [] \<or> (\<exists>i R'. R = TVar i # R')"
  shows "evalProduct env (TVar j # R) = map_option (\<lambda>b. env j \<and> b) (evalProduct env R)"
  using assms by auto

lemma evalProduct_lits:
  "evalProduct env (concat (map (\<lambda>i. litTok (t ! i) i) js))
   = Some (\<forall>i\<in>set js. (t ! i = CHR ''1'' \<longrightarrow> env i) \<and> (t ! i = CHR ''0'' \<longrightarrow> \<not> env i))"
proof (induction js)
  case Nil
  show ?case by simp
next
  case (Cons j js)
  define R where "R = concat (map (\<lambda>i. litTok (t ! i) i) js)"
  have hd: "R = [] \<or> (\<exists>i R'. R = TVar i # R')" unfolding R_def by (rule lits_head)
  have ih: "evalProduct env R
    = Some (\<forall>i\<in>set js. (t ! i = CHR ''1'' \<longrightarrow> env i) \<and> (t ! i = CHR ''0'' \<longrightarrow> \<not> env i))"
    unfolding R_def by (rule Cons.IH)
  have e: "concat (map (\<lambda>i. litTok (t ! i) i) (j # js)) = litTok (t ! j) j @ R"
    by (simp add: R_def)
  consider "t ! j = CHR ''1''" | "t ! j = CHR ''0''" | "t ! j \<noteq> CHR ''1''" "t ! j \<noteq> CHR ''0''"
    by blast
  then show ?case
  proof cases
    case 1
    then show ?thesis unfolding e using evalProduct_var[OF hd, of env j] ih
      by (auto simp: litTok_def)
  next
    case 2
    then show ?thesis unfolding e using ih by (auto simp: litTok_def)
  next
    case 3
    then show ?thesis unfolding e using ih by (auto simp: litTok_def)
  qed
qed

lemma varValue_nth:
  assumes "m < 2 ^ V" "0 < V" "i < V"
  shows "varValue V m i \<longleftrightarrow> bitsOf V m ! i = CHR ''1''"
  using bitsOf_props(1)[OF assms(1,2)] assms(3) by (simp add: varValue_def strAt_def)

lemma holds_literals:
  assumes "isCube t" "length t = V" "m < 2 ^ V" "0 < V"
  shows "holds V t m \<longleftrightarrow>
         (\<forall>i\<in>set [0..<length t]. (t ! i = CHR ''1'' \<longrightarrow> varValue V m i) \<and>
                                   (t ! i = CHR ''0'' \<longrightarrow> \<not> varValue V m i))"
proof -
  have l: "length (bitsOf V m) = V" by (rule bitsOf_props(1)[OF assms(3,4)])
  have h: "holds V t m \<longleftrightarrow> (\<forall>i<V. t ! i = CHR ''-'' \<or> t ! i = bitsOf V m ! i)"
    using assms(2) l by (auto simp: holds_def cubeMatches_nth)
  have pt: "(t ! i = CHR ''-'' \<or> t ! i = bitsOf V m ! i) \<longleftrightarrow>
        ((t ! i = CHR ''1'' \<longrightarrow> bitsOf V m ! i = CHR ''1'') \<and>
         (t ! i = CHR ''0'' \<longrightarrow> bitsOf V m ! i \<noteq> CHR ''1''))" if "i < V" for i
    using isCube_nth[OF assms(1), of i] bitsOf_nth[OF assms(3,4) that] that assms(2) by auto
  show ?thesis unfolding h using pt varValue_nth[OF assms(3,4)] assms(2) by auto
qed

lemma termTokens_nonempty:
  assumes "isCube t"
  shows "termTokens t \<noteq> []"
proof (cases "list_all (\<lambda>c. c = CHR ''-'') t")
  case True
  then show ?thesis by (simp add: termTokens_def)
next
  case False
  then obtain i where i: "i < length t" "t ! i \<noteq> CHR ''-''" by (auto simp: list_all_length)
  then have "t ! i = CHR ''0'' \<or> t ! i = CHR ''1''" using isCube_nth[OF assms, of i] by auto
  then have "litTok (t ! i) i \<noteq> []" by (auto simp: litTok_def)
  moreover have "i \<in> set [0..<length t]" using i(1) by simp
  ultimately have "concat (map (\<lambda>i. litTok (t ! i) i) [0..<length t]) \<noteq> []"
    unfolding concat_eq_Nil_conv by (metis (mono_tags, lifting) imageI list.set_map)
  then show ?thesis using False by (simp add: termTokens_def)
qed

lemma evalTerm_termTokens:
  assumes "isCube t" "length t = V" "m < 2 ^ V" "0 < V"
  shows "evalTerm (varValue V m) (termTokens t) = Some (holds V t m)"
proof (cases "list_all (\<lambda>c. c = CHR ''-'') t")
  case True
  have "holds V t m" unfolding holds_literals[OF assms] using True
    by (auto simp: list_all_length)
  then show ?thesis using True by (simp add: evalTerm_def termTokens_def)
next
  case False
  have ne: "termTokens t \<noteq> []" by (rule termTokens_nonempty[OF assms(1)])
  have "evalProduct (varValue V m) (termTokens t) = Some (holds V t m)"
    unfolding holds_literals[OF assms] using False
    by (simp add: termTokens_def evalProduct_lits)
  then show ?thesis using ne by (simp add: evalTerm_def)
qed

lemma splitPlus_noplus:
  "TPlus \<notin> set a \<Longrightarrow> splitPlus cur (a @ rest) = splitPlus (cur @ a) rest"
  by (induction a arbitrary: cur) auto

lemma splitPlus_sum:
  assumes "\<forall>a\<in>set as. TPlus \<notin> set a" "as \<noteq> []"
  shows "splitPlus cur (sumTokens as) = (cur @ hd as) # tl as"
  using assms
proof (induction as arbitrary: cur rule: sumTokens.induct)
  case 1
  then show ?case by simp
next
  case (2 a)
  then show ?case using splitPlus_noplus[of a cur "[]"] by simp
next
  case (3 a b bs)
  have "splitPlus cur (sumTokens (a # b # bs)) = splitPlus (cur @ a) (TPlus # sumTokens (b # bs))"
    using 3(2) splitPlus_noplus[of a cur "TPlus # sumTokens (b # bs)"] by simp
  also have "\<dots> = (cur @ a) # splitPlus [] (sumTokens (b # bs))" by simp
  also have "\<dots> = (cur @ a) # b # bs" using 3(1)[of "[]"] 3(2) by simp
  finally show ?case by simp
qed

lemma set_sumTokens: "set (sumTokens as) \<subseteq> insert TPlus (\<Union> (set ` set as))"
  by (induction as rule: sumTokens.induct) auto

lemma set_litTok: "set (litTok c i) \<subseteq> {TVar i, TPrime}"
  by (auto simp: litTok_def)

lemma set_termTokens: "set (termTokens t) \<subseteq> range TVar \<union> {TPrime, TConst True}"
proof (cases "list_all (\<lambda>c. c = CHR ''-'') t")
  case True
  then show ?thesis by (simp add: termTokens_def)
next
  case False
  have "set (concat (map (\<lambda>i. litTok (t ! i) i) [0..<length t])) \<subseteq> range TVar \<union> {TPrime, TConst True}"
    using set_litTok by fastforce
  then show ?thesis using False by (simp add: termTokens_def)
qed

lemma termTokens_plain:
  "TPlus \<notin> set (termTokens t)" "TOpen \<notin> set (termTokens t)" "TClose \<notin> set (termTokens t)"
  using set_termTokens[of t] by auto

lemma evalSum_sum:
  assumes "as \<noteq> []" "\<forall>a\<in>set as. TPlus \<notin> set a"
  shows "evalSum env (sumTokens as) =
         (if list_ex (\<lambda>v. v = None) (map (evalTerm env) as) then None
          else Some (list_ex (\<lambda>v. v = Some True) (map (evalTerm env) as)))"
proof -
  have "splitPlus [] (sumTokens as) = as"
    using splitPlus_sum[OF assms(2,1), of "[]"] assms(1) by simp
  then show ?thesis by (simp add: evalSum_def Let_def)
qed

lemma tokenize_join_terms:
  assumes "ts \<noteq> []" "\<forall>t\<in>set ts. isCube t \<and> length t = V" "V \<le> 10" "clean rest"
  shows "tokenize (join '' + '' (map (\<lambda>t. formatTerm t (varNames V)) ts) @ rest)
         = sumTokens (map termTokens ts) @ tokenize rest"
  using assms(1,2)
proof (induction ts rule: induct_list012)
  case 1
  then show ?case by simp
next
  case (2 t)
  then show ?case using tokenize_formatTerm[of t V rest] assms(3,4) by simp
next
  case (3 t u us)
  define R where "R = join '' + '' (map (\<lambda>t. formatTerm t (varNames V)) (u # us)) @ rest"
  have c: "clean ('' + '' @ R)" by simp
  have "tokenize (join '' + '' (map (\<lambda>t. formatTerm t (varNames V)) (t # u # us)) @ rest)
        = tokenize (formatTerm t (varNames V) @ ('' + '' @ R))" by (simp add: R_def)
  also have "\<dots> = termTokens t @ tokenize ('' + '' @ R)"
    by (rule tokenize_formatTerm[OF _ _ assms(3) c]) (use 3(4) in auto)
  also have "\<dots> = termTokens t @ TPlus # tokenize R" by (simp only: tokenize_sep)
  also have "tokenize R = sumTokens (map termTokens (u # us)) @ tokenize rest"
    unfolding R_def by (rule 3(2)) (use 3(4) in auto)
  finally show ?case by simp
qed

lemma formatTerm_nonempty:
  assumes "isCube t" "length t = V" "V \<le> 10"
  shows "formatTerm t (varNames V) \<noteq> []"
proof
  assume e: "formatTerm t (varNames V) = []"
  have "tokenize (formatTerm t (varNames V) @ []) = termTokens t @ tokenize []"
    by (rule tokenize_formatTerm[OF assms]) simp
  then have "termTokens t = []" unfolding e by simp
  then show False using termTokens_nonempty[OF assms(1)] by simp
qed

lemma join_nonempty:
  assumes "xs \<noteq> []" "\<forall>x\<in>set xs. x \<noteq> []"
  shows "join sep xs \<noteq> []"
proof (cases xs)
  case Nil
  then show ?thesis using assms(1) by simp
next
  case (Cons a as)
  then show ?thesis using assms(2) by (cases as) auto
qed

lemma evalExpr_sop:
  assumes "ts \<noteq> []" "\<forall>t\<in>set ts. isCube t \<and> length t = V" "0 < V" "V \<le> 10" "m < 2 ^ V"
  shows "evalExpr V (join '' + '' (map (\<lambda>t. formatTerm t (varNames V)) ts)) m
         = Some (\<exists>t\<in>set ts. holds V t m)"
proof -
  define toks where "toks = sumTokens (map termTokens ts)"
  have tk: "tokenize (join '' + '' (map (\<lambda>t. formatTerm t (varNames V)) ts)) = toks"
    using tokenize_join_terms[OF assms(1,2,4), of "[]"] by (simp add: toks_def)
  have np: "\<forall>a\<in>set (map termTokens ts). TPlus \<notin> set a" using termTokens_plain(1) by auto
  have nopar: "TOpen \<notin> set toks \<and> TClose \<notin> set toks"
    using set_sumTokens[of "map termTokens ts"] termTokens_plain(2,3) unfolding toks_def by fastforce
  have vals: "map (evalTerm (varValue V m)) (map termTokens ts) = map (\<lambda>t. Some (holds V t m)) ts"
    using assms(2) evalTerm_termTokens[OF _ _ assms(5,3)] by simp
  have ne: "map termTokens ts \<noteq> []" using assms(1) by simp
  have "evalSum (varValue V m) toks = Some (\<exists>t\<in>set ts. holds V t m)"
    unfolding toks_def evalSum_sum[OF ne np] vals by (auto simp: list_ex_iff)
  then show ?thesis unfolding evalExpr_def tk evalTokens_def using nopar by simp
qed

lemma posLitsLoop_spec:
  assumes "length t \<le> length vars"
  shows "posLitsLoop t vars i lits = lits @ map (\<lambda>l. Some (litStr vars l)) (posIdxOf t [i..<length t])"
  using assms
proof (induction t vars i lits rule: posLitsLoop.induct)
  case (1 t vars i lits)
  show ?case
  proof (cases "i < length t")
    case False
    then show ?thesis by (subst posLitsLoop.simps) (simp add: posIdxOf_def)
  next
    case True
    have upt: "[i..<length t] = i # [Suc i..<length t]" using True by (simp add: upt_rec)
    have v: "varAt vars i = Some (vars ! i)" using True 1(5) by (simp add: varAt_def)
    consider "t ! i = CHR ''-''" | "t ! i \<noteq> CHR ''-''" "t ! i = CHR ''0''"
      | "t ! i \<noteq> CHR ''-''" "t ! i \<noteq> CHR ''0''" "t ! i = CHR ''1''"
      | "t ! i \<noteq> CHR ''-''" "t ! i \<noteq> CHR ''0''" "t ! i \<noteq> CHR ''1''" by blast
    then show ?thesis
    proof cases
      case 1
      have "posLitsLoop t vars i lits = posLitsLoop t vars (i + 1) lits"
        using True 1 by (subst posLitsLoop.simps) simp
      then show ?thesis using "1.IH"(1)[OF True 1 "1.prems"] 1
        by (simp add: upt posIdxOf_def)
    next
      case 2
      have "posLitsLoop t vars i lits = posLitsLoop t vars (i + 1) (lits @ [varAt vars i])"
        using True 2 by (subst posLitsLoop.simps) simp
      then show ?thesis using "1.IH"(2)[OF True 2 "1.prems"] 2 v
        by (simp add: upt posIdxOf_def litStr_def)
    next
      case 3
      have "posLitsLoop t vars i lits
            = posLitsLoop t vars (i + 1) (lits @ [Some (concatStr (varAt vars i) @ [CHR 0x27])])"
        using True 3 by (subst posLitsLoop.simps) simp
      then show ?thesis using "1.IH"(3)[OF True 3 "1.prems"] 3 v
        by (simp add: upt posIdxOf_def litStr_def concatStr_def)
    next
      case 4
      have "posLitsLoop t vars i lits = posLitsLoop t vars (i + 1) lits"
        using True 4 by (subst posLitsLoop.simps) simp
      then show ?thesis using "1.IH"(4)[OF True 4 "1.prems"] 4
        by (simp add: upt posIdxOf_def)
    qed
  qed
qed

lemma joinOpt_Some: "joinOpt sep (map (\<lambda>l. Some (f l)) ls) = join sep (map f ls)"
  by (simp add: joinOpt_def comp_def)

lemma posFactor_eq:
  assumes "length t = V"
  shows "posFactor (varNames V) t =
     (if posIdxOf t [0..<length t] = [] then ''(0)''
      else ''('' @ join '' + '' (map (litStr (varNames V)) (posIdxOf t [0..<length t])) @ '')'')"
  using posLitsLoop_spec[of t "varNames V" 0 "[]"] assms
  by (simp add: posFactor_def Let_def joinOpt_Some)

lemma posIdxOf_mem:
  "l \<in> set (posIdxOf t js) \<longleftrightarrow>
     fst l \<in> set js \<and> ((t ! fst l = CHR ''0'' \<and> \<not> snd l) \<or> (t ! fst l = CHR ''1'' \<and> snd l))"
  unfolding posIdxOf_def by (cases l) (auto split: if_splits)

lemma tokenize_litStr:
  assumes "fst l < V" "V \<le> 10" "clean rest"
  shows "tokenize (litStr (varNames V) l @ rest) = litToks l @ tokenize rest"
proof -
  have i10: "fst l < 10" using assms by simp
  have c1: "clean (CHR 0x27 # rest)" by simp
  show ?thesis
    using tokenize_var[OF i10 assms(3)] tokenize_var[OF i10 c1] tokenize_prime[of rest]
    by (simp add: litStr_def litToks_def varNames_nth[OF assms(1)])
qed

lemma tokenize_join_lits:
  assumes "ls \<noteq> []" "\<forall>l\<in>set ls. fst l < V" "V \<le> 10" "clean rest"
  shows "tokenize (join '' + '' (map (litStr (varNames V)) ls) @ rest)
         = sumTokens (map litToks ls) @ tokenize rest"
  using assms(1,2)
proof (induction ls rule: induct_list012)
  case 1
  then show ?case by simp
next
  case (2 l)
  then show ?case using tokenize_litStr[of l V rest] assms(3,4) by simp
next
  case (3 l u us)
  define R where "R = join '' + '' (map (litStr (varNames V)) (u # us)) @ rest"
  have c: "clean ('' + '' @ R)" by simp
  have "tokenize (join '' + '' (map (litStr (varNames V)) (l # u # us)) @ rest)
        = tokenize (litStr (varNames V) l @ ('' + '' @ R))" by (simp add: R_def)
  also have "\<dots> = litToks l @ tokenize ('' + '' @ R)"
    by (rule tokenize_litStr[OF _ assms(3) c]) (use 3(4) in auto)
  also have "\<dots> = litToks l @ TPlus # tokenize R" by (simp only: tokenize_sep)
  also have "tokenize R = sumTokens (map litToks (u # us)) @ tokenize rest"
    unfolding R_def by (rule 3(2)) (use 3(4) in auto)
  finally show ?case by simp
qed

lemma tokenize_posFactor:
  assumes "length t = V" "V \<le> 10" "posIdxOf t [0..<length t] \<noteq> []"
  shows "tokenize (posFactor (varNames V) t @ rest) = factorTokens t @ tokenize rest"
proof -
  define ls where "ls = posIdxOf t [0..<length t]"
  have lt: "\<forall>l\<in>set ls. fst l < V" unfolding ls_def using assms(1) by (auto simp: posIdxOf_mem)
  have c: "clean ('')'' @ rest)" by simp
  have "tokenize (posFactor (varNames V) t @ rest)
        = tokenize (CHR ''('' # (join '' + '' (map (litStr (varNames V)) ls) @ ('')'' @ rest)))"
    using assms(3) by (simp add: posFactor_eq[OF assms(1)] ls_def)
  also have "\<dots> = TOpen # tokenize (join '' + '' (map (litStr (varNames V)) ls) @ ('')'' @ rest))"
    by (rule tokenize_open)
  also have "tokenize (join '' + '' (map (litStr (varNames V)) ls) @ ('')'' @ rest))
             = sumTokens (map litToks ls) @ tokenize ('')'' @ rest)"
    by (rule tokenize_join_lits[OF _ lt assms(2) c]) (use assms(3) ls_def in simp)
  also have "tokenize ('')'' @ rest) = TClose # tokenize rest" using tokenize_close[of rest] by simp
  finally show ?thesis by (simp add: factorTokens_def ls_def)
qed

lemma tokenize_posFactors:
  assumes "\<forall>t\<in>set ts. length t = V \<and> posIdxOf t [0..<length t] \<noteq> []" "V \<le> 10"
  shows "tokenize (concat (map (posFactor (varNames V)) ts)) = concat (map factorTokens ts)"
  using assms(1)
proof (induction ts)
  case Nil
  show ?case by simp
next
  case (Cons t ts)
  have "tokenize (posFactor (varNames V) t @ concat (map (posFactor (varNames V)) ts))
        = factorTokens t @ tokenize (concat (map (posFactor (varNames V)) ts))"
    by (rule tokenize_posFactor[OF _ assms(2)]) (use Cons.prems in auto)
  moreover have "tokenize (concat (map (posFactor (varNames V)) ts)) = concat (map factorTokens ts)"
    by (rule Cons.IH) (use Cons.prems in auto)
  ultimately show ?case by simp
qed

lemma splitFactors_inner:
  assumes "TOpen \<notin> set S" "TClose \<notin> set S"
  shows "splitFactors (Some g) (S @ TClose # rest) = map_option (Cons (g @ S)) (splitFactors None rest)"
  using assms by (induction S arbitrary: g) auto

lemma set_litToks: "set (litToks l) \<subseteq> {TVar (fst l), TPrime}"
  by (auto simp: litToks_def)

lemma sum_litToks_plain:
  "TOpen \<notin> set (sumTokens (map litToks ls))" "TClose \<notin> set (sumTokens (map litToks ls))"
  using set_sumTokens[of "map litToks ls"] set_litToks by fastforce+

lemma splitFactors_factors:
  "splitFactors None (concat (map factorTokens ts))
   = Some (map (\<lambda>t. sumTokens (map litToks (posIdxOf t [0..<length t]))) ts)"
proof (induction ts)
  case Nil
  show ?case by simp
next
  case (Cons t ts)
  define S where "S = sumTokens (map litToks (posIdxOf t [0..<length t]))"
  define R where "R = concat (map factorTokens ts)"
  have e: "concat (map factorTokens (t # ts)) = TOpen # (S @ TClose # R)"
    by (simp add: factorTokens_def S_def R_def)
  have "splitFactors None (TOpen # (S @ TClose # R)) = splitFactors (Some []) (S @ TClose # R)"
    by simp
  also have "\<dots> = map_option (Cons ([] @ S)) (splitFactors None R)"
    unfolding S_def by (rule splitFactors_inner[OF sum_litToks_plain])
  also have "\<dots> = Some (S # map (\<lambda>t. sumTokens (map litToks (posIdxOf t [0..<length t]))) ts)"
    unfolding R_def Cons.IH by simp
  finally show ?case unfolding e by (simp add: S_def)
qed

lemma evalTerm_litToks: "evalTerm env (litToks l) = Some (env (fst l) \<noteq> snd l)"
  by (cases l) (auto simp: evalTerm_def litToks_def)

lemma evalSum_lits:
  assumes "ls \<noteq> []"
  shows "evalSum env (sumTokens (map litToks ls)) = Some (\<exists>l\<in>set ls. env (fst l) \<noteq> snd l)"
proof -
  have np: "\<forall>a\<in>set (map litToks ls). TPlus \<notin> set a" using set_litToks by fastforce
  have ne: "map litToks ls \<noteq> []" using assms by simp
  have vals: "map (evalTerm env) (map litToks ls) = map (\<lambda>l. Some (env (fst l) \<noteq> snd l)) ls"
    by (simp add: evalTerm_litToks)
  show ?thesis unfolding evalSum_sum[OF ne np] vals by (auto simp: list_ex_iff)
qed

lemma posIdx_holds:
  assumes "isCube t" "length t = V" "m < 2 ^ V" "0 < V"
  shows "(\<exists>l\<in>set (posIdxOf t [0..<length t]). varValue V m (fst l) \<noteq> snd l) \<longleftrightarrow> \<not> holds V t m"
proof
  assume "\<exists>l\<in>set (posIdxOf t [0..<length t]). varValue V m (fst l) \<noteq> snd l"
  then obtain l where l: "l \<in> set (posIdxOf t [0..<length t])" "varValue V m (fst l) \<noteq> snd l"
    by blast
  from l(1) have "fst l \<in> set [0..<length t]"
    "(t ! fst l = CHR ''0'' \<and> \<not> snd l) \<or> (t ! fst l = CHR ''1'' \<and> snd l)"
    unfolding posIdxOf_mem by simp_all
  then show "\<not> holds V t m" unfolding holds_literals[OF assms] using l(2) by blast
next
  assume "\<not> holds V t m"
  then obtain i where i: "i \<in> set [0..<length t]"
    "(t ! i = CHR ''1'' \<and> \<not> varValue V m i) \<or> (t ! i = CHR ''0'' \<and> varValue V m i)"
    unfolding holds_literals[OF assms] by blast
  define l where "l = (i, t ! i = CHR ''1'')"
  have "l \<in> set (posIdxOf t [0..<length t])" unfolding posIdxOf_mem l_def using i by auto
  moreover have "varValue V m (fst l) \<noteq> snd l" unfolding l_def using i(2) by auto
  ultimately show "\<exists>l\<in>set (posIdxOf t [0..<length t]). varValue V m (fst l) \<noteq> snd l" by blast
qed

lemma posIdx_nonempty:
  assumes "isCube t" "\<not> allDashes t" "t \<noteq> []"
  shows "posIdxOf t [0..<length t] \<noteq> []"
proof -
  obtain i where i: "i < length t" "t ! i \<noteq> CHR ''-''"
    using assms(2,3) by (auto simp: allDashes_def list_all_length)
  then have "t ! i = CHR ''0'' \<or> t ! i = CHR ''1''" using isCube_nth[OF assms(1), of i] by auto
  then have "(i, t ! i = CHR ''1'') \<in> set (posIdxOf t [0..<length t])"
    using i(1) by (auto simp: posIdxOf_mem)
  then show ?thesis by auto
qed

lemma evalExpr_pos:
  assumes "ts \<noteq> []" "\<forall>t\<in>set ts. isCube t \<and> length t = V" "\<not> list_ex allDashes ts"
    "0 < V" "V \<le> 10" "m < 2 ^ V"
  shows "evalExpr V (formatPosFromTerms ts V) m = Some (\<forall>t\<in>set ts. \<not> holds V t m)"
proof -
  have pn: "\<forall>t\<in>set ts. length t = V \<and> posIdxOf t [0..<length t] \<noteq> []"
  proof
    fix t assume t: "t \<in> set ts"
    then have "isCube t" "length t = V" "\<not> allDashes t" using assms(2,3) by (auto simp: list_ex_iff)
    then show "length t = V \<and> posIdxOf t [0..<length t] \<noteq> []"
      using posIdx_nonempty[of t] assms(4) by auto
  qed
  define toks where "toks = concat (map factorTokens ts)"
  have tk: "tokenize (formatPosFromTerms ts V) = toks"
    using assms(3) tokenize_posFactors[OF pn assms(5)] by (simp add: formatPosFromTerms_def toks_def)
  obtain t0 ts0 where ts: "ts = t0 # ts0" using assms(1) by (cases ts) auto
  have op: "TOpen \<in> set toks" unfolding toks_def ts by (simp add: factorTokens_def)
  have sf: "splitFactors None toks
            = Some (map (\<lambda>t. sumTokens (map litToks (posIdxOf t [0..<length t]))) ts)"
    unfolding toks_def by (rule splitFactors_factors)
  have one: "evalSum (varValue V m) (sumTokens (map litToks (posIdxOf t [0..<length t])))
          = Some (\<not> holds V t m)" if t: "t \<in> set ts" for t
  proof -
    have ne: "posIdxOf t [0..<length t] \<noteq> []" using pn t by blast
    show ?thesis unfolding evalSum_lits[OF ne]
      using posIdx_holds[of t V m] assms(2,4,6) t by simp
  qed
  have vals: "map (evalSum (varValue V m)) (map (\<lambda>t. sumTokens (map litToks (posIdxOf t [0..<length t]))) ts)
              = map (\<lambda>t. Some (\<not> holds V t m)) ts"
    unfolding map_map comp_def by (rule map_cong[OF refl]) (rule one)
  show ?thesis
    unfolding evalExpr_def tk evalTokens_def sf option.case Let_def vals using op
    by (auto simp: list_ex_iff list_all_iff)
qed

lemma evalExpr_zero: "evalExpr V ''0'' m = Some False"
  by (simp add: evalExpr_def tokenize.simps(2) evalTokens_def evalSum_def evalTerm_def)

lemma evalExpr_one: "evalExpr V ''1'' m = Some True"
  by (simp add: evalExpr_def tokenize.simps(2) evalTokens_def evalSum_def evalTerm_def)

lemma allDashes_holds:
  assumes "allDashes t" "length t = V" "m < 2 ^ V" "0 < V"
  shows "holds V t m"
  using assms bitsOf_props(1)[OF assms(3,4)]
  by (auto simp: holds_def cubeMatches_nth allDashes_def list_all_length)

lemma cubeInv_mem:
  assumes "cubeInv S V p" "m < 2 ^ V"
  shows "m \<in> set (minterms p) \<longleftrightarrow> holds V (term_str p) m"
  using assms by (auto simp: cubeInv_def)

lemma cubeInv_sub: "cubeInv S V p \<Longrightarrow> set (minterms p) \<subseteq> S"
  unfolding cubeInv_def by blast

lemma cubeInv_cube: "cubeInv S V p \<Longrightarrow> isCube (term_str p) \<and> length (term_str p) = V"
  by (simp add: cubeInv_def)

lemma runQM_cover:
  assumes "validInput V req dcs" "req \<noteq> []" "length req + length dcs \<noteq> 2 ^ V"
  shows "\<exists>fin. fin \<noteq> [] \<and>
           runQM V req dcs =
             Inr \<lparr>qm_expression = join '' + '' (map (\<lambda>t. formatTerm t (varNames V)) (map term_str fin)),
                  qm_groups = map minterms fin, qm_terms = map term_str fin\<rparr> \<and>
           (\<forall>p\<in>set fin. cubeInv (set (req @ dcs)) V p) \<and>
           (\<forall>m\<in>set req. \<exists>p\<in>set fin. m \<in> set (minterms p))"
proof -
  note vp = validInput_props[OF assms(1)]
  obtain ups where ups: "qmPrimes V req dcs = Inr ups"
    "\<forall>p\<in>set ups. cubeInv (set (req @ dcs)) V p"
    "\<forall>m\<in>set (req @ dcs). \<exists>p\<in>set ups. m \<in> set (minterms p)"
    using qmPrimes_inv[OF vp(1,4)] by blast
  have cov: "\<forall>m\<in>set req. \<exists>p\<in>set ups. m \<in> set (minterms p)" using ups(3) by simp
  define fin where "fin = snd (qmCover ups req)"
  have f1: "\<forall>p\<in>set fin. cubeInv (set (req @ dcs)) V p"
    using qmCover_props(2)[OF cov] ups(2) unfolding fin_def by blast
  have f2: "\<forall>m\<in>set req. \<exists>p\<in>set fin. m \<in> set (minterms p)"
    unfolding fin_def by (rule qmCover_props(3)[OF cov])
  have ne: "fin \<noteq> []"
  proof
    assume "fin = []"
    moreover obtain m where "m \<in> set req" using assms(2) by (cases req) auto
    ultimately show False using f2 by auto
  qed
  have V10: "V \<le> 10" using vp(3) by simp
  have "\<forall>x\<in>set (map (\<lambda>p. formatTerm (term_str p) (varNames V)) fin). x \<noteq> []"
    using f1 cubeInv_cube formatTerm_nonempty[OF _ _ V10] by fastforce
  then have jn: "join '' + '' (map (\<lambda>p. formatTerm (term_str p) (varNames V)) fin) \<noteq> []"
    by (intro join_nonempty) (use ne in auto)
  have "runQM V req dcs =
             Inr \<lparr>qm_expression = join '' + '' (map (\<lambda>t. formatTerm t (varNames V)) (map term_str fin)),
                  qm_groups = map minterms fin, qm_terms = map term_str fin\<rparr>"
    unfolding runQM_main[OF assms(2,3) ups(1)] fin_def[symmetric] using jn
    by (simp add: comp_def)
  then show ?thesis using ne f1 f2 by blast
qed

lemma sop_sound:
  assumes "validInput V ms dcs" "m < 2 ^ V"
  shows "\<exists>sol. runQM V ms dcs = Inr sol \<and>
           (\<exists>b. evalExpr V (qm_expression sol) m = Some b) \<and>
           (m \<in> set ms \<longrightarrow> evalExpr V (qm_expression sol) m = Some True) \<and>
           (m \<notin> set ms \<union> set dcs \<longrightarrow> evalExpr V (qm_expression sol) m = Some False)"
proof -
  note vp = validInput_props[OF assms(1)]
  consider "ms = []" | "ms \<noteq> []" "length ms + length dcs = 2 ^ V"
    | "ms \<noteq> []" "length ms + length dcs \<noteq> 2 ^ V" by blast
  then show ?thesis
  proof cases
    case 1
    then show ?thesis by (auto simp: runQM_def evalExpr_zero)
  next
    case 2
    have "length (ms @ dcs) = 2 ^ V" using 2(2) by simp
    then have "set (ms @ dcs) = {0..<2 ^ V}" by (rule full_space[OF vp(5,4)])
    then have "m \<in> set ms \<union> set dcs" using assms(2) by auto
    then show ?thesis using 2 by (auto simp: runQM_def evalExpr_one)
  next
    case 3
    obtain fin where fin: "fin \<noteq> []"
      "runQM V ms dcs =
             Inr \<lparr>qm_expression = join '' + '' (map (\<lambda>t. formatTerm t (varNames V)) (map term_str fin)),
                  qm_groups = map minterms fin, qm_terms = map term_str fin\<rparr>"
      "\<forall>p\<in>set fin. cubeInv (set (ms @ dcs)) V p"
      "\<forall>m\<in>set ms. \<exists>p\<in>set fin. m \<in> set (minterms p)"
      using runQM_cover[OF assms(1) 3] by blast
    have cubes: "\<forall>t\<in>set (map term_str fin). isCube t \<and> length t = V"
      using fin(3) cubeInv_cube by auto
    have ev: "evalExpr V (join '' + '' (map (\<lambda>t. formatTerm t (varNames V)) (map term_str fin))) m
              = Some (\<exists>t\<in>set (map term_str fin). holds V t m)"
      by (rule evalExpr_sop[OF _ cubes vp(1) _ assms(2)]) (use fin(1) vp(3) in auto)
    have iff: "(\<exists>t\<in>set (map term_str fin). holds V t m) \<longleftrightarrow> (\<exists>p\<in>set fin. m \<in> set (minterms p))"
      using fin(3) cubeInv_mem[OF _ assms(2)] by auto
    have t: "m \<in> set ms \<Longrightarrow> \<exists>p\<in>set fin. m \<in> set (minterms p)" using fin(4) by blast
    have f: "m \<notin> set ms \<union> set dcs \<Longrightarrow> \<not> (\<exists>p\<in>set fin. m \<in> set (minterms p))"
      using fin(3) cubeInv_sub by fastforce
    show ?thesis unfolding fin(2) using ev iff t f by simp
  qed
qed

lemma pos_sound:
  assumes "validInput V ms dcs" "m < 2 ^ V" "zerosOf V ms dcs \<noteq> []"
  shows "\<exists>sol. runQM V (zerosOf V ms dcs) dcs = Inr sol \<and>
           (\<exists>b. evalExpr V (formatPosFromTerms (qm_terms sol) V) m = Some b) \<and>
           (m \<in> set ms \<longrightarrow> evalExpr V (formatPosFromTerms (qm_terms sol) V) m = Some True) \<and>
           (m \<notin> set ms \<union> set dcs \<longrightarrow> evalExpr V (formatPosFromTerms (qm_terms sol) V) m = Some False)"
proof -
  define zs where "zs = zerosOf V ms dcs"
  have vz: "validInput V zs dcs" unfolding zs_def by (rule validInput_zeros[OF assms(1)])
  note vp = validInput_props[OF vz]
  note vp0 = validInput_props[OF assms(1)]
  have zset: "set zs = {0..<2 ^ V} - set ms - set dcs" unfolding zs_def by (rule zerosOf_set)
  have disj: "set ms \<inter> set dcs = {}" using vp0(5) by auto
  have inz: "m \<notin> set ms \<union> set dcs \<Longrightarrow> m \<in> set zs" using assms(2) zset by auto
  have outz: "m \<in> set ms \<Longrightarrow> m \<notin> set (zs @ dcs)" using zset disj by auto
  have zne: "zs \<noteq> []" using assms(3) by (simp add: zs_def)
  have concl: ?thesis if
    sol: "runQM V zs dcs = Inr sol" and
    v: "evalExpr V (formatPosFromTerms (qm_terms sol) V) m = Some b" and
    mt: "m \<in> set ms \<Longrightarrow> b" and mf: "m \<notin> set ms \<union> set dcs \<Longrightarrow> \<not> b" for sol b
    using that unfolding zs_def[symmetric] by auto
  show ?thesis
  proof (cases "length zs + length dcs = 2 ^ V")
    case True
    have "length (zs @ dcs) = 2 ^ V" using True by simp
    then have "set (zs @ dcs) = {0..<2 ^ V}" by (rule full_space[OF vp(5,4)])
    then have nm: "m \<notin> set ms" using outz assms(2) by auto
    have ad: "allDashes (replicate V (CHR ''-''))" by (rule allDashes_replicate[OF vp(1)])
    show ?thesis
    proof (rule concl[where b=False])
      show "runQM V zs dcs = Inr \<lparr>qm_expression = ''1'', qm_groups = [zs @ dcs],
                   qm_terms = [replicate V (CHR ''-'')]\<rparr>"
        using zne True by (simp add: runQM_def)
      show "evalExpr V (formatPosFromTerms (qm_terms \<lparr>qm_expression = ''1'', qm_groups = [zs @ dcs],
                   qm_terms = [replicate V (CHR ''-'')]\<rparr>) V) m = Some False"
        using ad by (simp add: formatPosFromTerms_def evalExpr_zero)
      show "m \<in> set ms \<Longrightarrow> False" using nm by simp
      show "m \<notin> set ms \<union> set dcs \<Longrightarrow> \<not> False" by simp
    qed
  next
    case False
    obtain fin where fin: "fin \<noteq> []"
      "runQM V zs dcs =
             Inr \<lparr>qm_expression = join '' + '' (map (\<lambda>t. formatTerm t (varNames V)) (map term_str fin)),
                  qm_groups = map minterms fin, qm_terms = map term_str fin\<rparr>"
      "\<forall>p\<in>set fin. cubeInv (set (zs @ dcs)) V p"
      "\<forall>m\<in>set zs. \<exists>p\<in>set fin. m \<in> set (minterms p)"
      using runQM_cover[OF vz zne False] by blast
    have cubes: "\<forall>t\<in>set (map term_str fin). isCube t \<and> length t = V"
      using fin(3) cubeInv_cube by auto
    have iff: "(\<forall>t\<in>set (map term_str fin). \<not> holds V t m) \<longleftrightarrow> (\<forall>p\<in>set fin. m \<notin> set (minterms p))"
      using fin(3) cubeInv_mem[OF _ assms(2)] by auto
    have t: "m \<in> set ms \<Longrightarrow> \<forall>p\<in>set fin. m \<notin> set (minterms p)"
      using fin(3) cubeInv_sub outz by blast
    have f: "m \<notin> set ms \<union> set dcs \<Longrightarrow> \<not> (\<forall>p\<in>set fin. m \<notin> set (minterms p))"
      using fin(4) inz by blast
    show ?thesis
    proof (cases "list_ex allDashes (map term_str fin)")
      case ad: True
      then obtain p where p: "p \<in> set fin" "allDashes (term_str p)" by (auto simp: list_ex_iff)
      have "holds V (term_str p) m"
        by (rule allDashes_holds[OF p(2) _ assms(2) vp(1)]) (use fin(3) p(1) cubeInv_cube in auto)
      then have "m \<in> set (minterms p)" using cubeInv_mem[OF _ assms(2)] fin(3) p(1) by blast
      then have nm: "m \<notin> set ms" using t p(1) by blast
      show ?thesis
      proof (rule concl[where b=False, OF fin(2)])
        show "evalExpr V (formatPosFromTerms (qm_terms \<lparr>qm_expression = join '' + '' (map (\<lambda>t. formatTerm t (varNames V)) (map term_str fin)),
                  qm_groups = map minterms fin, qm_terms = map term_str fin\<rparr>) V) m = Some False"
          using ad by (simp add: formatPosFromTerms_def evalExpr_zero)
        show "m \<in> set ms \<Longrightarrow> False" using nm by simp
        show "m \<notin> set ms \<union> set dcs \<Longrightarrow> \<not> False" by simp
      qed
    next
      case nad: False
      have ev: "evalExpr V (formatPosFromTerms (map term_str fin) V) m
                = Some (\<forall>t\<in>set (map term_str fin). \<not> holds V t m)"
        by (rule evalExpr_pos[OF _ cubes nad vp(1) _ assms(2)]) (use fin(1) vp(3) in auto)
      show ?thesis
      proof (rule concl[where b="\<forall>p\<in>set fin. m \<notin> set (minterms p)", OF fin(2)])
        show "evalExpr V (formatPosFromTerms (qm_terms \<lparr>qm_expression = join '' + '' (map (\<lambda>t. formatTerm t (varNames V)) (map term_str fin)),
                  qm_groups = map minterms fin, qm_terms = map term_str fin\<rparr>) V) m
              = Some (\<forall>p\<in>set fin. m \<notin> set (minterms p))"
          using ev iff by simp
        show "m \<in> set ms \<Longrightarrow> \<forall>p\<in>set fin. m \<notin> set (minterms p)" by (rule t)
        show "m \<notin> set ms \<union> set dcs \<Longrightarrow> \<not> (\<forall>p\<in>set fin. m \<notin> set (minterms p))" by (rule f)
      qed
    qed
  qed
qed

text \<open>
  Claim C1. For two to five variables and disjoint sets of true and don't-care positions
  below \<open>2 ^ V\<close>, in SOP and in POS form, \<open>solveCustom\<close> returns an expression that, read
  with \<open>x_i\<close> as bit \<open>i\<close> of the position (most significant bit first), has a value at every
  position below \<open>2 ^ V\<close>: true at every position of the true set, false at every position
  outside both sets, and either value at a don't-care position.
\<close>

theorem solveCustom_sound:
  assumes "validInput V ms dcs"
  shows "\<exists>r. solveCustom V ms dcs isSop = Inr r \<and>
           (\<forall>m<2 ^ V.
              (\<exists>b. evalExpr V (expression r) m = Some b) \<and>
              (m \<in> set ms \<longrightarrow> evalExpr V (expression r) m = Some True) \<and>
              (m \<notin> set ms \<union> set dcs \<longrightarrow> evalExpr V (expression r) m = Some False))"
proof (cases isSop)
  case True
  obtain sol where sol: "runQM V ms dcs = Inr sol" using runQM_total[OF assms] by blast
  have "\<forall>m<2 ^ V.
              (\<exists>b. evalExpr V (qm_expression sol) m = Some b) \<and>
              (m \<in> set ms \<longrightarrow> evalExpr V (qm_expression sol) m = Some True) \<and>
              (m \<notin> set ms \<union> set dcs \<longrightarrow> evalExpr V (qm_expression sol) m = Some False)"
    using sop_sound[OF assms] sol by auto
  then show ?thesis using True sol by (simp add: solveCustom_sop)
next
  case False
  show ?thesis
  proof (cases "zerosOf V ms dcs = []")
    case z: True
    have "m \<in> set ms \<union> set dcs" if "m < 2 ^ V" for m
    proof (rule ccontr)
      assume "m \<notin> set ms \<union> set dcs"
      then have "m \<in> set (zerosOf V ms dcs)" using that by (simp add: zerosOf_set)
      then show False using z by simp
    qed
    then show ?thesis using False z by (auto simp: solveCustom_def evalExpr_one)
  next
    case z: False
    obtain sol where sol: "runQM V (zerosOf V ms dcs) dcs = Inr sol"
      using runQM_total[OF validInput_zeros[OF assms]] by blast
    have "\<forall>m<2 ^ V.
              (\<exists>b. evalExpr V (formatPosFromTerms (qm_terms sol) V) m = Some b) \<and>
              (m \<in> set ms \<longrightarrow> evalExpr V (formatPosFromTerms (qm_terms sol) V) m = Some True) \<and>
              (m \<notin> set ms \<union> set dcs \<longrightarrow> evalExpr V (formatPosFromTerms (qm_terms sol) V) m = Some False)"
      using pos_sound[OF assms _ z] sol by auto
    then show ?thesis using False z sol by (simp add: solveCustom_def)
  qed
qed

theorem solveCustom_sound_witness:
  "validInput 2 [1, 3] [2] \<and>
   (\<exists>r. solveCustom 2 [1, 3] [2] False = Inr r \<and>
        evalExpr 2 (expression r) 1 = Some True \<and>
        evalExpr 2 (expression r) 3 = Some True \<and>
        evalExpr 2 (expression r) 0 = Some False)"
proof -
  have v: "validInput 2 [1, 3] [2]" by (simp add: validInput_def)
  obtain r where r: "solveCustom 2 [1, 3] [2] False = Inr r"
    and a: "\<And>m. m < 2 ^ 2 \<Longrightarrow>
              (m \<in> set [1, 3::nat] \<longrightarrow> evalExpr 2 (expression r) m = Some True) \<and>
              (m \<notin> set [1, 3] \<union> set [2] \<longrightarrow> evalExpr 2 (expression r) m = Some False)"
    using solveCustom_sound[OF v, of False] by blast
  have "evalExpr 2 (expression r) 1 = Some True" using a[of 1] by simp
  moreover have "evalExpr 2 (expression r) 3 = Some True" using a[of 3] by simp
  moreover have "evalExpr 2 (expression r) 0 = Some False" using a[of 0] by simp
  ultimately show ?thesis using v r by blast
qed

end
